theory Spec2Isabelle
  imports Main
begin

section \<open>createAttach: a callback ref with keyed listeners\<close>

text \<open>
  The element handed to \<open>attach\<close> is a DOM node; only its identity matters
  (\<open>attach\<close> compares it with the one it holds by \<open>===\<close>), so an element is a
  number. The variable that holds the bound element is the field \<open>elementB\<close>.
  A listener's handler and the disposer it returns are external code: a
  handler is a name together with the function that says, from the calls
  made so far and the element it is given, whether it returns a disposer and
  which one (\<open>typeof maybeCleanup === "function"\<close>). A disposer is a number, its
  identity.

  Every call that leaves the code is appended to a log of events, in the
  order it is made: a handler called with an element or \<open>undefined\<close>, a
  disposer called, and, for the layers above, an element animated and a hook
  of an overlay called. Handlers, disposers and hooks return normally and do
  not call back into the operation that is running them.
\<close>

type_synonym elem = nat

datatype hname = H nat | AnimationH "string option" "string option"

datatype hookKind = BeforeOpen | BeforeClose | AfterClose

datatype event =
    Call hname "elem option"
  | Dispose nat
  | Animate elem "string option" "string option"
  | HookRun hookKind string

record handler =
  hid :: hname
  run :: "event list \<Rightarrow> elem option \<Rightarrow> nat option"

record EventData =
  func :: handler
  once :: bool
  cleanupFn :: "nat option"

record attachment =
  elementB :: "elem option"
  listeners :: "(string \<times> EventData) list option"

text \<open>A JavaScript \<open>Map\<close> keeps its keys in insertion order; \<open>set\<close> on a key
  that exists replaces the value where it stands.\<close>

fun mapSet :: "string \<Rightarrow> 'v \<Rightarrow> (string \<times> 'v) list \<Rightarrow> (string \<times> 'v) list" where
  "mapSet k v [] = [(k, v)]"
| "mapSet k v ((k', v') # rest) =
     (if k' = k then (k, v) # rest else (k', v') # mapSet k v rest)"

definition mapDelete :: "string \<Rightarrow> (string \<times> 'v) list \<Rightarrow> (string \<times> 'v) list" where
  "mapDelete k m = filter (\<lambda>(k', v). k' \<noteq> k) m"

definition mapHas :: "string \<Rightarrow> (string \<times> 'v) list \<Rightarrow> bool" where
  "mapHas k m = (map_of m k \<noteq> None)"

text \<open>\<open>data.cleanupFn?.()\<close> for one listener, and for all of them in order.\<close>

definition cleanupEvents :: "EventData \<Rightarrow> event list" where
  "cleanupEvents data = (case cleanupFn data of None \<Rightarrow> [] | Some c \<Rightarrow> [Dispose c])"

definition runCleanups :: "(string \<times> EventData) list \<Rightarrow> event list" where
  "runCleanups ls = concat (map (\<lambda>(k, data). cleanupEvents data) ls)"

definition createAttach :: "handler option \<Rightarrow> bool \<Rightarrow> attachment" where
  "createAttach initialHandler onc =
     \<lparr> elementB = None,
       listeners = (case initialHandler of
                      None \<Rightarrow> None
                    | Some h \<Rightarrow> Some [(''default'', \<lparr> func = h, once = onc, cleanupFn = None \<rparr>)]) \<rparr>"

text \<open>What a handler does when it is called is external code, but for the one
  listener that the repository itself registers, the one-shot
  \<open>(el) => el && Animate(el, classAdd, classDel)\<close> of \<open>createBoolLazyFalse\<close>:
  called with an element, it animates it.\<close>

fun ownEvents :: "hname \<Rightarrow> elem option \<Rightarrow> event list" where
  "ownEvents (AnimationH classAdd classDel) (Some el) = [Animate el classAdd classDel]"
| "ownEvents h el = []"

text \<open>The second loop of \<open>attach\<close>: every listener is called with the new
  value; a returned disposer replaces the stored one; a \<open>once\<close> listener has
  its stored disposer called and is deleted.\<close>

fun attachLoop ::
  "elem option \<Rightarrow> (string \<times> EventData) list \<Rightarrow> event list
     \<Rightarrow> (string \<times> EventData) list \<times> event list" where
  "attachLoop el [] tr = ([], tr)"
| "attachLoop el ((k, data) # rest) tr =
     (let maybeCleanup = run (func data) tr el;
          tr1 = tr @ Call (hid (func data)) el # ownEvents (hid (func data)) el;
          data1 = (case maybeCleanup of
                     Some c \<Rightarrow> data\<lparr> cleanupFn := Some c \<rparr>
                   | None \<Rightarrow> data)
      in if once data1
         then attachLoop el rest (tr1 @ cleanupEvents data1)
         else (case attachLoop el rest tr1 of
                 (rest', tr2) \<Rightarrow> ((k, data1) # rest', tr2)))"

text \<open>\<open>document\<close> says whether \<open>globalThis.document\<close> exists.\<close>

definition attach ::
  "bool \<Rightarrow> elem option \<Rightarrow> attachment \<Rightarrow> event list \<Rightarrow> attachment \<times> event list" where
  "attach document el a tr =
     (if el = elementB a \<or> \<not> document then (a, tr)
      else
        let tr1 = (case (elementB a, listeners a) of
                     (Some old, Some ls) \<Rightarrow> tr @ runCleanups ls
                   | _ \<Rightarrow> tr);
            a1 = a\<lparr> elementB := el \<rparr>
        in case listeners a1 of
             None \<Rightarrow> (a1, tr1)
           | Some ls \<Rightarrow>
               (case attachLoop el ls tr1 of
                  (ls', tr2) \<Rightarrow> (a1\<lparr> listeners := Some ls' \<rparr>, tr2)))"

definition attachmentOf :: "attachment \<Rightarrow> elem option" where
  "attachmentOf a = elementB a"

text \<open>\<open>onAttach(handler, key = "default", once = false)\<close>: an argument left out
  is \<open>None\<close>.\<close>

definition onAttach ::
  "handler \<Rightarrow> string option \<Rightarrow> bool option \<Rightarrow> attachment \<Rightarrow> event list
     \<Rightarrow> attachment \<times> event list" where
  "onAttach h keyArg onceArg a tr =
     (let key = (case keyArg of None \<Rightarrow> ''default'' | Some k \<Rightarrow> k);
          onc = (case onceArg of None \<Rightarrow> False | Some b \<Rightarrow> b);
          tr1 = (case listeners a of
                   None \<Rightarrow> tr
                 | Some ls \<Rightarrow> (case map_of ls key of
                                None \<Rightarrow> tr
                              | Some old \<Rightarrow> tr @ cleanupEvents old));
          data = \<lparr> func = h, once = onc, cleanupFn = None \<rparr>
      in (a\<lparr> listeners := Some (case listeners a of
                                 Some ls \<Rightarrow> mapSet key data ls
                               | None \<Rightarrow> [(key, data)]) \<rparr>, tr1))"

record detachOptions =
  key :: "string option"
  clearEvents :: "bool option"
  clearDefaultEvent :: "bool option"
  eventsOnly :: "bool option"

datatype detachArg = NoArg | KeyArg string | OptionsArg detachOptions

datatype error = IncompatibleParameters

definition removeHandler ::
  "string \<Rightarrow> attachment \<Rightarrow> event list \<Rightarrow> (attachment \<times> event list) \<times> bool" where
  "removeHandler handlerKey a tr =
     (case listeners a of
        None \<Rightarrow> ((a, tr), False)
      | Some ls \<Rightarrow>
          ((a\<lparr> listeners := Some (mapDelete handlerKey ls) \<rparr>,
            (case map_of ls handlerKey of
               None \<Rightarrow> tr
             | Some data \<Rightarrow> tr @ cleanupEvents data)),
           mapHas handlerKey ls))"

text \<open>\<open>detach\<close> returns the attachment and the log as they are when it
  returns or throws, and either the error thrown or the value returned
  (\<open>None\<close> for \<open>undefined\<close>). The empty string is falsy: \<open>detach("")\<close> takes the
  first branch, and an options object whose \<open>key\<close> is empty is read as one
  without a key.\<close>

definition detach ::
  "detachArg \<Rightarrow> attachment \<Rightarrow> event list
     \<Rightarrow> (attachment \<times> event list) \<times> (error + bool option)" where
  "detach keyOrOptions a tr =
     (case keyOrOptions of
        NoArg \<Rightarrow>
          ((\<lparr> elementB = None, listeners = None \<rparr>,
            (case listeners a of None \<Rightarrow> tr | Some ls \<Rightarrow> tr @ runCleanups ls)),
           Inr None)
      | KeyArg k \<Rightarrow>
          (if k = []
           then ((\<lparr> elementB = None, listeners = None \<rparr>,
                  (case listeners a of None \<Rightarrow> tr | Some ls \<Rightarrow> tr @ runCleanups ls)),
                 Inr None)
           else (case removeHandler k a tr of (st, b) \<Rightarrow> (st, Inr (Some b))))
      | OptionsArg opts \<Rightarrow>
          (let ce = (case clearEvents opts of None \<Rightarrow> True | Some b \<Rightarrow> b);
               cd = (case clearDefaultEvent opts of None \<Rightarrow> True | Some b \<Rightarrow> b);
               eo = (case eventsOnly opts of None \<Rightarrow> False | Some b \<Rightarrow> b)
           in if key opts \<noteq> None \<and> key opts \<noteq> Some []
              then (case removeHandler (the (key opts)) a tr of
                      (st, b) \<Rightarrow> (st, Inr (Some b)))
              else if eo \<and> \<not> ce \<and> \<not> cd
              then ((a, tr), Inl IncompatibleParameters)
              else
                (let st1 =
                       (case listeners a of
                          None \<Rightarrow> (a, tr)
                        | Some ls \<Rightarrow>
                            (a\<lparr> listeners :=
                                 (if ce \<and> cd then None
                                  else if ce \<and> \<not> cd
                                  then (case map_of ls ''default'' of
                                          None \<Rightarrow> None
                                        | Some def \<Rightarrow> Some [(''default'', def)])
                                  else if cd then Some (mapDelete ''default'' ls)
                                  else Some ls) \<rparr>,
                             tr @ runCleanups
                                    (filter (\<lambda>(k, data). ce \<or> (cd \<and> k = ''default'')) ls)))
                 in ((if \<not> eo then (fst st1)\<lparr> elementB := None \<rparr> else fst st1, snd st1),
                     Inr None))))"


text \<open>The attachments that a program can hold: made by \<open>createAttach\<close> and
  then used through \<open>attach\<close>, \<open>onAttach\<close> and \<open>detach\<close> (which the owner's
  disposal also calls, without argument), all in one environment, with or
  without a \<open>document\<close>.\<close>

inductive attReach :: "bool \<Rightarrow> attachment \<times> event list \<Rightarrow> bool" where
  create: "attReach document (createAttach initialHandler onc, [])"
| attach: "attReach document (a, tr) \<Longrightarrow> attReach document (attach document el a tr)"
| onAttach: "attReach document (a, tr) \<Longrightarrow> attReach document (onAttach h keyArg onceArg a tr)"
| detach: "attReach document (a, tr) \<Longrightarrow> attReach document (fst (detach arg a tr))"

fun isCall :: "event \<Rightarrow> bool" where
  "isCall (Call h el) = True"
| "isCall e = False"

text \<open>The events of one round of the second loop of \<open>attach\<close>, for a listener
  and what its handler returned: the call, what the handler itself does, and
  for a \<open>once\<close> listener the disposer it then holds.\<close>

definition roundEvents :: "elem option \<Rightarrow> (string \<times> EventData) \<times> nat option \<Rightarrow> event list" where
  "roundEvents el p =
     (case p of
        ((k, d), r) \<Rightarrow>
          Call (hid (func d)) el # ownEvents (hid (func d)) el
          @ (if once d
             then (case r of
                     Some c \<Rightarrow> [Dispose c]
                   | None \<Rightarrow> (case cleanupFn d of None \<Rightarrow> [] | Some c \<Rightarrow> [Dispose c]))
             else []))"

section \<open>Timers of the event loop\<close>

text \<open>
  A pending timer is its handle, the milliseconds left and the instance
  whose callback it runs. Handles are positive, hence truthy in
  \<open>if (timeout)\<close>. \<open>clearTimeout\<close> on a handle that has fired or was cleared
  does nothing.
\<close>

record 'p clock =
  pendingTimers :: "(nat \<times> nat \<times> 'p) list"
  nextHandle :: nat

definition newClock :: "'p clock" where
  "newClock = \<lparr> pendingTimers = [], nextHandle = 1 \<rparr>"

text \<open>A timer keeps its delay in 32 bits, signed: a delay above \<open>2^31 - 1\<close> ms
  is not honoured, and the timer is due after about 1 ms. A delay of 0 is due
  at the next turn of the event loop.\<close>

definition timerDelay :: "nat \<Rightarrow> nat" where
  "timerDelay ms = (if 2147483647 < ms then 1 else ms)"

definition setTimeout :: "nat \<Rightarrow> 'p \<Rightarrow> 'p clock \<Rightarrow> nat \<times> 'p clock" where
  "setTimeout ms p c =
     (nextHandle c,
      c\<lparr> pendingTimers := pendingTimers c @ [(nextHandle c, timerDelay ms, p)],
         nextHandle := Suc (nextHandle c) \<rparr>)"

definition clearTimeout :: "nat \<Rightarrow> 'p clock \<Rightarrow> 'p clock" where
  "clearTimeout h c = c\<lparr> pendingTimers := filter (\<lambda>(h', ms, p). h' \<noteq> h) (pendingTimers c) \<rparr>"

text \<open>When \<open>d\<close> milliseconds pass, the timers with at most \<open>d\<close> left are due, the
  earliest first; a due timer that an earlier callback cleared does not run.\<close>

definition dueHandles :: "nat \<Rightarrow> 'p clock \<Rightarrow> nat list" where
  "dueHandles d c =
     map fst (sort_key (\<lambda>(h, ms, p). ms) (filter (\<lambda>(h, ms, p). ms \<le> d) (pendingTimers c)))"

definition advance :: "nat \<Rightarrow> 'p clock \<Rightarrow> 'p clock" where
  "advance d c = c\<lparr> pendingTimers := map (\<lambda>(h, ms, p). (h, ms - d, p)) (pendingTimers c) \<rparr>"

definition takeTimer :: "nat \<Rightarrow> 'p clock \<Rightarrow> ('p \<times> 'p clock) option" where
  "takeTimer h c =
     (case find (\<lambda>(h', ms, p). h' = h) (pendingTimers c) of
        None \<Rightarrow> None
      | Some (h', ms, p) \<Rightarrow> Some (p, clearTimeout h c))"

section \<open>createBoolLazyFalse: the three-state visibility\<close>

datatype BoolLazyFalseState = FALSE | BECOMING_FALSE | TRUE

text \<open>
  The instance is the closure's variables \<open>state\<close>, \<open>timeout\<close> and \<open>onChange\<close>,
  its options, and whether \<open>dispose\<close> has ended its effect. The effect makes
  two calls out of the instance, the stored callback and the animation of the
  bound element; they are returned in the order they are made, for the
  caller to run.
\<close>

record 'cb boolLazyFalse =
  state :: BoolLazyFalseState
  timeout :: "nat option"
  onChange :: "'cb option"
  disposed :: bool
  delay :: nat
  classIn :: "string option"
  classOut :: "string option"

datatype 'cb action = Invoke 'cb | Anim "string option" "string option"

definition effect :: "'cb boolLazyFalse \<Rightarrow> 'cb action list" where
  "effect b =
     (if state b \<noteq> BECOMING_FALSE
      then (case onChange b of None \<Rightarrow> [] | Some cb \<Rightarrow> [Invoke cb])
      else [])
     @ (if state b = FALSE then []
        else [Anim (if state b = TRUE then classIn b else classOut b)
                   (if state b = TRUE then classOut b else classIn b)])"

text \<open>Writing the signal runs the effect when the value changes and the
  effect is still alive. The operations are called one at a time and not
  from inside a batch, so the effect has run when the write returns.\<close>

definition setState ::
  "BoolLazyFalseState \<Rightarrow> 'cb boolLazyFalse \<Rightarrow> 'cb boolLazyFalse \<times> 'cb action list" where
  "setState v b =
     (if state b = v then (b, [])
      else (b\<lparr> state := v \<rparr>, if disposed b then [] else effect (b\<lparr> state := v \<rparr>)))"

definition createBoolLazyFalse ::
  "bool \<Rightarrow> nat \<Rightarrow> string option \<Rightarrow> string option
     \<Rightarrow> 'cb boolLazyFalse \<times> 'cb action list" where
  "createBoolLazyFalse initialValue ms cin cout =
     (let b = \<lparr> state = (if initialValue then TRUE else FALSE), timeout = None,
                onChange = None, disposed = False, delay = ms,
                classIn = cin, classOut = cout \<rparr>
      in (b, effect b))"

definition clearTimeouts ::
  "'cb boolLazyFalse \<Rightarrow> 'p clock \<Rightarrow> 'cb boolLazyFalse \<times> 'p clock" where
  "clearTimeouts b c =
     (b\<lparr> onChange := None \<rparr>,
      (case timeout b of None \<Rightarrow> c | Some h \<Rightarrow> clearTimeout h c))"

text \<open>\<open>set\<close>; \<open>owner\<close> is what the timer's callback will find the instance by.\<close>

definition setB ::
  "'p \<Rightarrow> bool \<Rightarrow> 'cb option \<Rightarrow> 'cb boolLazyFalse \<Rightarrow> 'p clock
     \<Rightarrow> ('cb boolLazyFalse \<times> 'p clock) \<times> 'cb action list" where
  "setB owner v cb b c =
     (let boolTrue = (v \<and> state b \<noteq> TRUE);
          boolFalse = (\<not> v \<and> state b = TRUE)
      in if \<not> boolTrue \<and> \<not> boolFalse then ((b, c), [])
         else
           (case clearTimeouts b c of
              (b1, c1) \<Rightarrow>
                (let b2 = b1\<lparr> onChange := cb \<rparr>
                 in if boolTrue
                    then (case setState TRUE b2 of (b3, acts) \<Rightarrow> ((b3, c1), acts))
                    else (case setState BECOMING_FALSE b2 of
                            (b3, acts) \<Rightarrow>
                              (case setTimeout (delay b3) owner c1 of
                                 (h, c2) \<Rightarrow> ((b3\<lparr> timeout := Some h \<rparr>, c2), acts))))))"

definition toggle ::
  "'p \<Rightarrow> 'cb option \<Rightarrow> 'cb boolLazyFalse \<Rightarrow> 'p clock
     \<Rightarrow> ('cb boolLazyFalse \<times> 'p clock) \<times> 'cb action list" where
  "toggle owner cb b c = setB owner (state b \<noteq> TRUE) cb b c"

definition cleanup :: "'cb boolLazyFalse \<Rightarrow> 'p clock \<Rightarrow> 'cb boolLazyFalse \<times> 'p clock" where
  "cleanup b c = (case clearTimeouts b c of (b1, c1) \<Rightarrow> (b1\<lparr> disposed := True \<rparr>, c1))"

definition lazyBool :: "'cb boolLazyFalse \<Rightarrow> bool" where
  "lazyBool b = (state b \<noteq> FALSE)"

definition boolB :: "'cb boolLazyFalse \<Rightarrow> bool" where
  "boolB b = (state b = TRUE)"

text \<open>The timer's callback, \<open>() => setState(FALSE)\<close>.\<close>

definition timerCallback :: "'cb boolLazyFalse \<Rightarrow> 'cb boolLazyFalse \<times> 'cb action list" where
  "timerCallback b = setState FALSE b"

subsection \<open>One instance with its timers\<close>

text \<open>An instance on its own, with the timers it has set and the calls its
  effect has made so far.\<close>

record 'cb lazySystem =
  inst :: "'cb boolLazyFalse"
  clock :: "unit clock"
  made :: "'cb action list"

definition sysCreate ::
  "bool \<Rightarrow> nat \<Rightarrow> string option \<Rightarrow> string option \<Rightarrow> 'cb lazySystem" where
  "sysCreate initialValue ms cin cout =
     (case createBoolLazyFalse initialValue ms cin cout of
        (b, acts) \<Rightarrow> \<lparr> inst = b, clock = newClock, made = acts \<rparr>)"

definition sysSet :: "bool \<Rightarrow> 'cb option \<Rightarrow> 'cb lazySystem \<Rightarrow> 'cb lazySystem" where
  "sysSet v cb s =
     (case setB () v cb (inst s) (clock s) of
        ((b, c), acts) \<Rightarrow> \<lparr> inst = b, clock = c, made = made s @ acts \<rparr>)"

definition sysToggle :: "'cb option \<Rightarrow> 'cb lazySystem \<Rightarrow> 'cb lazySystem" where
  "sysToggle cb s =
     (case toggle () cb (inst s) (clock s) of
        ((b, c), acts) \<Rightarrow> \<lparr> inst = b, clock = c, made = made s @ acts \<rparr>)"

definition sysCleanup :: "'cb lazySystem \<Rightarrow> 'cb lazySystem" where
  "sysCleanup s =
     (case cleanup (inst s) (clock s) of (b, c) \<Rightarrow> s\<lparr> inst := b, clock := c \<rparr>)"

definition sysFire :: "nat \<Rightarrow> 'cb lazySystem \<Rightarrow> 'cb lazySystem" where
  "sysFire h s =
     (case takeTimer h (clock s) of
        None \<Rightarrow> s
      | Some (p, c) \<Rightarrow>
          (case timerCallback (inst s) of
             (b, acts) \<Rightarrow> \<lparr> inst = b, clock = c, made = made s @ acts \<rparr>))"

definition sysElapse :: "nat \<Rightarrow> 'cb lazySystem \<Rightarrow> 'cb lazySystem" where
  "sysElapse d s =
     foldl (\<lambda>s' h. sysFire h s') (s\<lparr> clock := advance d (clock s) \<rparr>) (dueHandles d (clock s))"

inductive sysReach :: "'cb lazySystem \<Rightarrow> bool" where
  create: "sysReach (sysCreate initialValue ms cin cout)"
| set: "sysReach s \<Longrightarrow> sysReach (sysSet v cb s)"
| toggle: "sysReach s \<Longrightarrow> sysReach (sysToggle cb s)"
| cleanup: "sysReach s \<Longrightarrow> sysReach (sysCleanup s)"
| elapse: "sysReach s \<Longrightarrow> sysReach (sysElapse d s)"


text \<open>What holds of an instance and its timers: no timer is pending, or one
  is, its handle is the one in \<open>timeout\<close>, and the state is \<open>BECOMING_FALSE\<close>.\<close>

definition sysInv :: "'cb lazySystem \<Rightarrow> bool" where
  "sysInv s =
     (pendingTimers (clock s) = []
      \<or> (\<exists>h ms. pendingTimers (clock s) = [(h, ms, ())]
                \<and> timeout (inst s) = Some h \<and> state (inst s) = BECOMING_FALSE))"

section \<open>OverlayProvider: the registry of overlays\<close>

text \<open>
  A hook (\<open>onBeforeOpen\<close>, \<open>onBeforeClose\<close>, \<open>onAfterClose\<close>) is external
  code that may set \<open>event.cancel\<close>; it can ask the context which overlays are
  open and which is topmost, so it is the function from those two answers to
  the flag it leaves.

  The values of the \<open>overlays\<close> map are objects: the callbacks that
  \<open>openOverlay\<close> and \<open>closeOverlay\<close> pass to \<open>set\<close> close over the object they
  looked up, and \<open>registerOverlay\<close> on an id that is taken puts a new object
  in the map while the old one lives on in those callbacks. So the map holds
  references, and the objects are in a store of their own. The \<open>elementRef\<close>
  of an overlay is made by its caller: it is a reference too.
\<close>

type_synonym hook = "string list \<Rightarrow> string option \<Rightarrow> bool"

datatype callback = OpenCallback string nat | CloseCallback string nat

record OverlayProps =
  overlayId :: string
  elementRef :: nat
  lockScroll :: "bool option"
  initiallyVisible :: "bool option"
  animationDelay :: "nat option"
  enterClass :: "string option"
  exitClass :: "string option"
  onBeforeOpen :: "hook option"
  onBeforeClose :: "hook option"
  onAfterClose :: "hook option"

record OverlayData =
  props :: OverlayProps
  visibilityState :: "callback boolLazyFalse"
  wasScrollLocked :: bool

record OverlayStore =
  overlays :: "(string \<times> nat) list"
  openOverlays :: "string list"
  topmostOverlay :: "string option"
  scrollLockCount :: int
  savedScrollY :: int
  windowScrollY :: nat
  scrollLocked :: "bool option"
  objects :: "nat \<Rightarrow> OverlayData option"
  nextObject :: nat
  attachments :: "nat \<Rightarrow> attachment"
  timers :: "nat clock"
  trace :: "event list"

definition newStore :: "(nat \<Rightarrow> attachment) \<Rightarrow> nat \<Rightarrow> OverlayStore" where
  "newStore atts y =
     \<lparr> overlays = [], openOverlays = [], topmostOverlay = None, scrollLockCount = 0,
       savedScrollY = - 1, windowScrollY = y, scrollLocked = None,
       objects = (\<lambda>a. None), nextObject = 0, attachments = atts,
       timers = newClock, trace = [] \<rparr>"

text \<open>The scroll-lock effect. It reads \<open>scrollLockCount\<close> once; when it writes
  the count it has made itself stale and runs again.\<close>

definition scrollLockEffect :: "OverlayStore \<Rightarrow> OverlayStore" where
  "scrollLockEffect r =
     (let c = scrollLockCount r;
          r1 = (if c > 0 \<and> savedScrollY r = - 1
                then r\<lparr> savedScrollY := int (windowScrollY r), scrollLocked := Some True \<rparr>
                else if c \<le> 0 \<and> savedScrollY r \<noteq> - 1
                then r\<lparr> scrollLocked := Some False,
                        windowScrollY := nat (savedScrollY r),
                        savedScrollY := - 1 \<rparr>
                else r)
      in if c < 0 then r1\<lparr> scrollLockCount := 0 \<rparr> else r1)"

definition runScrollLockEffect :: "OverlayStore \<Rightarrow> OverlayStore" where
  "runScrollLockEffect r =
     (let r1 = scrollLockEffect r
      in if scrollLockCount r1 \<noteq> scrollLockCount r then scrollLockEffect r1 else r1)"

text \<open>A task of the event loop (a call from outside, or a timer's callback)
  runs to its end; then the effects that its writes made stale run, before
  anything else can read the store.\<close>

definition task :: "(OverlayStore \<Rightarrow> OverlayStore) \<Rightarrow> OverlayStore \<Rightarrow> OverlayStore" where
  "task f r =
     (let r1 = f r
      in if scrollLockCount r1 \<noteq> scrollLockCount r then runScrollLockEffect r1 else r1)"

text \<open>\<open>remainingOverlays.at(-1) || undefined\<close>: the empty id is falsy.\<close>

definition lastOrUndefined :: "string list \<Rightarrow> string option" where
  "lastOrUndefined xs = (if xs = [] then None else if last xs = [] then None else Some (last xs))"

definition updateOverlayVisibilityState ::
  "string \<Rightarrow> bool \<Rightarrow> bool \<Rightarrow> OverlayStore \<Rightarrow> OverlayStore" where
  "updateOverlayVisibilityState i shouldLockScroll isOpening r =
     (let wasAlreadyOpen = (i \<in> set (openOverlays r));
          deleted = filter (\<lambda>x. x \<noteq> i) (openOverlays r);
          r1 = (if isOpening
                then r\<lparr> topmostOverlay := Some i, openOverlays := deleted @ [i] \<rparr>
                else r\<lparr> topmostOverlay := lastOrUndefined deleted, openOverlays := deleted \<rparr>)
      in if shouldLockScroll
         then (if isOpening \<and> \<not> wasAlreadyOpen
               then r1\<lparr> scrollLockCount := scrollLockCount r1 + 1 \<rparr>
               else if \<not> isOpening \<and> wasAlreadyOpen
               then r1\<lparr> scrollLockCount := scrollLockCount r1 - 1 \<rparr>
               else r1)
         else r1)"

text \<open>Calling a hook, when the overlay has it: the flag it leaves, and the
  call in the log.\<close>

definition runHook ::
  "hookKind \<Rightarrow> string \<Rightarrow> hook option \<Rightarrow> OverlayStore \<Rightarrow> bool \<times> OverlayStore" where
  "runHook kind i hk r =
     (case hk of
        None \<Rightarrow> (False, r)
      | Some f \<Rightarrow> (f (openOverlays r) (topmostOverlay r),
                   r\<lparr> trace := trace r @ [HookRun kind i] \<rparr>))"

text \<open>A hook that sets \<open>cancel\<close> on no call.\<close>

definition neverCancels :: "hook option \<Rightarrow> bool" where
  "neverCancels hk = (case hk of None \<Rightarrow> True | Some f \<Rightarrow> \<forall>opn top. \<not> f opn top)"

definition detachRef :: "nat \<Rightarrow> OverlayStore \<Rightarrow> OverlayStore" where
  "detachRef ref r =
     (case detach NoArg (attachments r ref) (trace r) of
        ((a, tr), res) \<Rightarrow> r\<lparr> attachments := (attachments r)(ref := a), trace := tr \<rparr>)"

text \<open>The animation step of the effect of \<open>createBoolLazyFalse\<close>, on the
  \<open>ref\<close> it was given: \<open>Animate\<close> on the bound element, or a one-shot listener
  that waits for one. The listener returns what \<open>el && Animate(...)\<close> is,
  never a function; the animation it makes when it is called with an element
  is in \<open>ownEvents\<close>.\<close>

definition animationHandler :: "string option \<Rightarrow> string option \<Rightarrow> handler" where
  "animationHandler classAdd classDel =
     \<lparr> hid = AnimationH classAdd classDel, run = (\<lambda>tr el. None) \<rparr>"

definition applyAnimation ::
  "nat \<Rightarrow> string option \<Rightarrow> string option \<Rightarrow> OverlayStore \<Rightarrow> OverlayStore" where
  "applyAnimation ref classAdd classDel r =
     (case attachmentOf (attachments r ref) of
        Some el \<Rightarrow> r\<lparr> trace := trace r @ [Animate el classAdd classDel] \<rparr>
      | None \<Rightarrow>
          (case onAttach (animationHandler classAdd classDel) (Some ''lazybool-animation'')
                  (Some True) (attachments r ref) (trace r) of
             (a, tr) \<Rightarrow> r\<lparr> attachments := (attachments r)(ref := a), trace := tr \<rparr>))"

text \<open>The callback that \<open>openOverlay\<close> passes to \<open>set\<close>, closed over \<open>id\<close> and
  the overlay object.\<close>

definition openCallback :: "string \<Rightarrow> nat \<Rightarrow> OverlayStore \<Rightarrow> OverlayStore" where
  "openCallback i a r =
     (case objects r a of
        None \<Rightarrow> r
      | Some overlay \<Rightarrow>
          (let w = (case lockScroll (props overlay) of None \<Rightarrow> True | Some b \<Rightarrow> b)
           in updateOverlayVisibilityState i w True
                (r\<lparr> objects := (objects r)(a := Some (overlay\<lparr> wasScrollLocked := w \<rparr>)) \<rparr>)))"

text \<open>The callback that \<open>closeOverlay\<close> passes to \<open>set\<close>.\<close>

definition closeCallback :: "string \<Rightarrow> nat \<Rightarrow> OverlayStore \<Rightarrow> OverlayStore" where
  "closeCallback i a r =
     (case objects r a of
        None \<Rightarrow> r
      | Some overlay \<Rightarrow>
          (case runHook AfterClose i (onAfterClose (props overlay)) r of
             (cancel, r1) \<Rightarrow>
               if cancel then r1
               else updateOverlayVisibilityState i (wasScrollLocked overlay) False
                      (detachRef (elementRef (props overlay)) r1)))"

fun performActions :: "nat \<Rightarrow> callback action list \<Rightarrow> OverlayStore \<Rightarrow> OverlayStore" where
  "performActions ref [] r = r"
| "performActions ref (Invoke (OpenCallback i a) # rest) r =
     performActions ref rest (openCallback i a r)"
| "performActions ref (Invoke (CloseCallback i a) # rest) r =
     performActions ref rest (closeCallback i a r)"
| "performActions ref (Anim classAdd classDel # rest) r =
     performActions ref rest (applyAnimation ref classAdd classDel r)"

text \<open>Running an operation of the visibility instance of the object at \<open>a\<close>:
  the instance and the timers are written back, then the calls its effect
  makes are run.\<close>

definition withVisibility ::
  "nat \<Rightarrow> (callback boolLazyFalse \<Rightarrow> nat clock
           \<Rightarrow> (callback boolLazyFalse \<times> nat clock) \<times> callback action list)
     \<Rightarrow> OverlayStore \<Rightarrow> OverlayStore" where
  "withVisibility a f r =
     (case objects r a of
        None \<Rightarrow> r
      | Some overlay \<Rightarrow>
          (case f (visibilityState overlay) (timers r) of
             ((b, c), acts) \<Rightarrow>
               performActions (elementRef (props overlay)) acts
                 (r\<lparr> objects := (objects r)(a := Some (overlay\<lparr> visibilityState := b \<rparr>)),
                    timers := c \<rparr>)))"

definition registerOverlay :: "OverlayProps \<Rightarrow> OverlayStore \<Rightarrow> OverlayStore" where
  "registerOverlay overlay r =
     (case runHook BeforeOpen (overlayId overlay) (onBeforeOpen overlay) r of
        (cancel, r1) \<Rightarrow>
          (let shouldStartVisible =
                 ((case initiallyVisible overlay of None \<Rightarrow> False | Some v \<Rightarrow> v) \<and> \<not> cancel);
               w = (shouldStartVisible
                    \<and> (case lockScroll overlay of None \<Rightarrow> True | Some l \<Rightarrow> l));
               a = nextObject r1
           in case createBoolLazyFalse shouldStartVisible
                     (case animationDelay overlay of None \<Rightarrow> 0 | Some ms \<Rightarrow> ms)
                     (enterClass overlay) (exitClass overlay) of
                (b, acts) \<Rightarrow>
                  (let r2 = performActions (elementRef overlay) acts r1;
                       r3 = r2\<lparr> overlays := mapSet (overlayId overlay) a (overlays r2),
                               objects := (objects r2)
                                 (a := Some \<lparr> props = overlay, visibilityState = b,
                                             wasScrollLocked = w \<rparr>),
                               nextObject := Suc a \<rparr>
                   in if shouldStartVisible
                      then updateOverlayVisibilityState (overlayId overlay) w True r3
                      else r3)))"

definition unregisterOverlay :: "string \<Rightarrow> OverlayStore \<Rightarrow> OverlayStore" where
  "unregisterOverlay i r =
     (case map_of (overlays r) i of
        None \<Rightarrow> r
      | Some a \<Rightarrow>
          (case objects r a of
             None \<Rightarrow> r
           | Some overlay \<Rightarrow>
               (case cleanup (visibilityState overlay) (timers r) of
                  (b, c) \<Rightarrow>
                    (let r1 = r\<lparr> objects := (objects r)
                                    (a := Some (overlay\<lparr> visibilityState := b \<rparr>)),
                                timers := c \<rparr>;
                         r2 = detachRef (elementRef (props overlay)) r1;
                         r3 = r2\<lparr> overlays := mapDelete i (overlays r2) \<rparr>
                     in updateOverlayVisibilityState i (wasScrollLocked overlay) False r3))))"

definition openOverlay :: "string \<Rightarrow> OverlayStore \<Rightarrow> OverlayStore" where
  "openOverlay i r =
     (case map_of (overlays r) i of
        None \<Rightarrow> r
      | Some a \<Rightarrow>
          (case objects r a of
             None \<Rightarrow> r
           | Some overlay \<Rightarrow>
               (case runHook BeforeOpen i (onBeforeOpen (props overlay)) r of
                  (cancel, r1) \<Rightarrow>
                    if cancel then r1
                    else withVisibility a (setB a True (Some (OpenCallback i a))) r1)))"

definition closeOverlay :: "string \<Rightarrow> OverlayStore \<Rightarrow> OverlayStore" where
  "closeOverlay i r =
     (case map_of (overlays r) i of
        None \<Rightarrow> r
      | Some a \<Rightarrow>
          (case objects r a of
             None \<Rightarrow> r
           | Some overlay \<Rightarrow>
               (case runHook BeforeClose i (onBeforeClose (props overlay)) r of
                  (cancel, r1) \<Rightarrow>
                    if cancel then r1
                    else withVisibility a (setB a False (Some (CloseCallback i a))) r1)))"

text \<open>The timer with handle \<open>h\<close> fires: the callback of the instance that set
  it runs.\<close>

definition timerFires :: "nat \<Rightarrow> OverlayStore \<Rightarrow> OverlayStore" where
  "timerFires h r =
     (case takeTimer h (timers r) of
        None \<Rightarrow> r
      | Some (a, c) \<Rightarrow>
          withVisibility a (\<lambda>b c'. (case timerCallback b of (b', acts) \<Rightarrow> ((b', c'), acts)))
            (r\<lparr> timers := c \<rparr>))"

definition elapse :: "nat \<Rightarrow> OverlayStore \<Rightarrow> OverlayStore" where
  "elapse d r =
     foldl (\<lambda>r' h. task (timerFires h) r') (r\<lparr> timers := advance d (timers r) \<rparr>)
       (dueHandles d (timers r))"

text \<open>The rendering layer binds and unbinds the element of a ref.\<close>

definition attachRef :: "nat \<Rightarrow> elem option \<Rightarrow> OverlayStore \<Rightarrow> OverlayStore" where
  "attachRef ref el r =
     (case attach True el (attachments r ref) (trace r) of
        (a, tr) \<Rightarrow> r\<lparr> attachments := (attachments r)(ref := a), trace := tr \<rparr>)"

definition isOpen :: "string \<Rightarrow> OverlayStore \<Rightarrow> bool" where
  "isOpen i r = (i \<in> set (openOverlays r))"

definition isTopmost :: "string \<Rightarrow> OverlayStore \<Rightarrow> bool" where
  "isTopmost i r = (topmostOverlay r = Some i)"

inductive reachable :: "OverlayStore \<Rightarrow> bool" where
  new: "reachable (newStore atts y)"
| register: "reachable r \<Longrightarrow> reachable (task (registerOverlay overlay) r)"
| unregister: "reachable r \<Longrightarrow> reachable (task (unregisterOverlay i) r)"
| open': "reachable r \<Longrightarrow> reachable (task (openOverlay i) r)"
| close: "reachable r \<Longrightarrow> reachable (task (closeOverlay i) r)"
| elapse: "reachable r \<Longrightarrow> reachable (elapse d r)"
| attachRef: "reachable r \<Longrightarrow> reachable (attachRef ref el r)"


section \<open>Concrete inputs\<close>

text \<open>A handler that returns a disposer named after the element it is given,
  and none when it is given \<open>undefined\<close>.\<close>

definition echoHandler :: handler where
  "echoHandler = \<lparr> hid = H 0, run = (\<lambda>tr el. el) \<rparr>"

text \<open>An attachment made with that handler and mounted on element 1; the
  same after \<open>detach({clearEvents: true, clearDefaultEvent: false, eventsOnly: true})\<close>;
  and then mounted on element 2.\<close>

definition mountedOnce :: "attachment \<times> event list" where
  "mountedOnce = attach True (Some 1) (createAttach (Some echoHandler) False) []"

definition keptDefault :: "attachment \<times> event list" where
  "keptDefault =
     fst (detach (OptionsArg \<lparr> key = None, clearEvents = Some True,
                               clearDefaultEvent = Some False, eventsOnly = Some True \<rparr>)
            (fst mountedOnce) (snd mountedOnce))"

definition remounted :: "attachment \<times> event list" where
  "remounted = attach True (Some 2) (fst keptDefault) (snd keptDefault)"

text \<open>A second handler, which returns the disposer 9 whatever it is given,
  registered once element 1 is mounted, as a one-shot listener: under the key
  \<open>late\<close>, and under the key \<open>default\<close>, which is taken.\<close>

definition lateHandler :: handler where
  "lateHandler = \<lparr> hid = H 1, run = (\<lambda>tr el. Some 9) \<rparr>"

definition lateListener :: "attachment \<times> event list" where
  "lateListener = onAttach lateHandler (Some ''late'') (Some True)
                    (fst mountedOnce) (snd mountedOnce)"

definition replacedDefault :: "attachment \<times> event list" where
  "replacedDefault = onAttach lateHandler None (Some True)
                       (fst mountedOnce) (snd mountedOnce)"

text \<open>An instance with a delay of 200 ms: opened from closed; created open and
  closing; closing and opened again before the delay; closing and left alone
  for the delay.\<close>

definition opened :: "nat lazySystem" where
  "opened = sysSet True None (sysCreate False 200 None None)"

definition closing :: "nat lazySystem" where
  "closing = sysSet False None (sysCreate True 200 None None)"

definition reopened :: "nat lazySystem" where
  "reopened = sysSet True None closing"

definition landed :: "nat lazySystem" where
  "landed = sysElapse 200 closing"

text \<open>An instance whose delay, \<open>2^31\<close> ms, is more than a timer keeps: opened,
  then closing with the callback 7.\<close>

definition overlong :: "nat lazySystem" where
  "overlong =
     sysSet False (Some 7) (sysSet True None (sysCreate False 2147483648 None None))"

text \<open>Refs on which nothing is mounted, and an overlay with every option left
  out but the delay, 200 ms. \<open>mismatched\<close> is the store after the id \<open>A\<close> was
  registered visible without scroll lock and then again visible with it.\<close>

definition noRefs :: "nat \<Rightarrow> attachment" where
  "noRefs = (\<lambda>ref. createAttach None False)"

definition plainOverlay :: "string \<Rightarrow> nat \<Rightarrow> OverlayProps" where
  "plainOverlay i ref =
     \<lparr> overlayId = i, elementRef = ref, lockScroll = None, initiallyVisible = None,
       animationDelay = Some 200, enterClass = None, exitClass = None,
       onBeforeOpen = None, onBeforeClose = None, onAfterClose = None \<rparr>"

definition mismatched :: OverlayStore where
  "mismatched =
     task (registerOverlay ((plainOverlay ''A'' 0)\<lparr> initiallyVisible := Some True \<rparr>))
       (task (registerOverlay ((plainOverlay ''A'' 0)
                \<lparr> initiallyVisible := Some True, lockScroll := Some False \<rparr>))
          (newStore noRefs 17))"

text \<open>Hooks: one that never cancels, and one that cancels as long as it finds
  \<open>m1\<close> among the open overlays. Overlays with them, and the instance of a
  visibility that rests closed or open.\<close>

definition quietHook :: hook where
  "quietHook = (\<lambda>opn top. False)"

definition vetoHook :: hook where
  "vetoHook = (\<lambda>opn top. ''m1'' \<in> set opn)"

definition hookedOverlay :: "string \<Rightarrow> nat \<Rightarrow> OverlayProps" where
  "hookedOverlay i ref =
     (plainOverlay i ref)\<lparr> onBeforeOpen := Some quietHook, onBeforeClose := Some quietHook,
                           onAfterClose := Some quietHook \<rparr>"

definition vetoOverlay :: OverlayProps where
  "vetoOverlay =
     (plainOverlay ''m1'' 1)\<lparr> initiallyVisible := Some True, onBeforeClose := Some quietHook,
                              onAfterClose := Some vetoHook \<rparr>"

definition restingState :: "bool \<Rightarrow> callback boolLazyFalse" where
  "restingState v =
     \<lparr> state = (if v then TRUE else FALSE), timeout = None, onChange = None,
       disposed = False, delay = 200, classIn = None, classOut = None \<rparr>"

text \<open>Two overlays registered closed, and then \<open>A\<close>, \<open>B\<close>, \<open>A\<close> opened.\<close>

definition twoClosed :: OverlayStore where
  "twoClosed =
     task (registerOverlay (hookedOverlay ''B'' 1))
       (task (registerOverlay (hookedOverlay ''A'' 0)) (newStore noRefs 17))"

definition abaOpened :: OverlayStore where
  "abaOpened =
     task (openOverlay ''A'') (task (openOverlay ''B'') (task (openOverlay ''A'') twoClosed))"

text \<open>The overlay \<open>m1\<close> registered visible, then closed and left for its delay.
  And a store with \<open>m0\<close>, \<open>m1\<close> open and \<open>m2\<close> on its way out.\<close>

definition shown :: OverlayStore where
  "shown = task (registerOverlay vetoOverlay) (newStore noRefs 17)"

definition vetoed :: OverlayStore where
  "vetoed = elapse 200 (task (closeOverlay ''m1'') shown)"

definition busy :: OverlayStore where
  "busy =
     task (closeOverlay ''m2'')
       (task (registerOverlay ((plainOverlay ''m2'' 2)\<lparr> initiallyVisible := Some True \<rparr>))
          (task (registerOverlay vetoOverlay)
             (task (registerOverlay ((hookedOverlay ''m0'' 0)\<lparr> initiallyVisible := Some True \<rparr>))
                (newStore noRefs 17))))"

section \<open>Properties of createAttach\<close>

lemma ownEvents_unmount: "ownEvents h None = []"
  by (cases h) simp_all

lemma ownEvents_no_call: "filter isCall (ownEvents h el) = []"
  by (cases h; cases el) simp_all

lemma cleanupEvents_no_call: "filter isCall (cleanupEvents d) = []"
  by (simp add: cleanupEvents_def split: option.splits)

lemma attachLoop_exact:
  "\<exists>rs. length rs = length ls
      \<and> attachLoop el ls tr
        = (map (\<lambda>((k, d), r). (k, case r of Some c \<Rightarrow> d\<lparr> cleanupFn := Some c \<rparr> | None \<Rightarrow> d))
             (filter (\<lambda>((k, d), r). \<not> once d) (zip ls rs)),
           tr @ concat (map (roundEvents el) (zip ls rs)))
      \<and> (\<forall>i < length ls.
            rs ! i = run (func (snd (ls ! i)))
                       (tr @ concat (take i (map (roundEvents el) (zip ls rs)))) el)"
proof (induction ls arbitrary: tr)
  case Nil
  show ?case by simp
next
  case (Cons p ls)
  obtain k d where p: "p = (k, d)" by (cases p)
  define r where "r = run (func d) tr el"
  define d1 where "d1 = (case r of Some c \<Rightarrow> d\<lparr> cleanupFn := Some c \<rparr> | None \<Rightarrow> d)"
  define b where "b = roundEvents el ((k, d), r)"
  have o: "once d1 = once d" by (simp add: d1_def split: option.splits)
  have step: "attachLoop el ((k, d) # ls) tr
      = (if once d then attachLoop el ls (tr @ b)
         else (case attachLoop el ls (tr @ b) of (rest', tr2) \<Rightarrow> ((k, d1) # rest', tr2)))"
    by (simp add: Let_def r_def [symmetric] d1_def [symmetric] o b_def roundEvents_def)
       (simp add: d1_def cleanupEvents_def split: option.splits)
  from Cons.IH [of "tr @ b"] obtain rs where
    l: "length rs = length ls"
    and a: "attachLoop el ls (tr @ b)
        = (map (\<lambda>((k, d), r). (k, case r of Some c \<Rightarrow> d\<lparr> cleanupFn := Some c \<rparr> | None \<Rightarrow> d))
             (filter (\<lambda>((k, d), r). \<not> once d) (zip ls rs)),
           (tr @ b) @ concat (map (roundEvents el) (zip ls rs)))"
    and n: "\<forall>i < length ls.
            rs ! i = run (func (snd (ls ! i)))
                       ((tr @ b) @ concat (take i (map (roundEvents el) (zip ls rs)))) el"
    by blast
  have nth: "(r # rs) ! i = run (func (snd ((p # ls) ! i)))
                 (tr @ concat (take i (map (roundEvents el) (zip (p # ls) (r # rs))))) el"
    if "i < length (p # ls)" for i
  proof (cases i)
    case 0
    then show ?thesis by (simp add: p r_def)
  next
    case (Suc j)
    with that have "j < length ls" by simp
    with n have "rs ! j = run (func (snd (ls ! j)))
                       ((tr @ b) @ concat (take j (map (roundEvents el) (zip ls rs)))) el"
      by blast
    then show ?thesis by (simp add: Suc p b_def)
  qed
  show ?case
    apply (rule exI [of _ "r # rs"])
    using l a nth unfolding p by (simp add: step b_def d1_def del: attachLoop.simps)
qed


lemma attachLoop_shape:
  "\<exists>evs. snd (attachLoop el ls tr) = tr @ evs
       \<and> filter isCall evs = map (\<lambda>(k, d). Call (hid (func d)) el) ls"
proof -
  obtain rs where l: "length rs = length ls"
    and a: "snd (attachLoop el ls tr) = tr @ concat (map (roundEvents el) (zip ls rs))"
    using attachLoop_exact [of ls el tr] by auto
  have "filter isCall (concat (map (roundEvents el) (zip ls rs)))
          = map (\<lambda>(k, d). Call (hid (func d)) el) ls"
    using l
  proof (induction ls rs rule: list_induct2')
    case (4 x xs y ys)
    then show ?case
      by (cases x) (simp add: roundEvents_def ownEvents_no_call split: option.splits)
  qed simp_all
  with a show ?thesis by blast
qed

lemma attReach_document:
  "attReach document st \<Longrightarrow> elementB (fst st) \<noteq> None \<Longrightarrow> document"
proof (induction rule: attReach.induct)
  case (create document initialHandler onc)
  then show ?case by (simp add: createAttach_def)
next
  case (attach document a tr el)
  then show ?case by (auto simp: attach_def Let_def split: if_splits option.splits prod.splits)
next
  case (onAttach document a tr h keyArg onceArg)
  then show ?case by (auto simp: onAttach_def Let_def)
next
  case (detach document a tr arg)
  then show ?case
    by (auto simp: detach_def removeHandler_def Let_def
             split: detachArg.splits if_splits option.splits prod.splits)
qed

text \<open>
  C10. On an attachment with an element bound and listeners, \<open>attach(undefined)\<close>
  first calls the stored disposer of every listener that has one, in
  registration order, leaves no element bound, and then takes the listeners
  in registration order: it calls the handler with \<open>undefined\<close>, and for a
  listener registered with \<open>once\<close> it calls the disposer the listener then
  holds (the one just returned, or else the stored one) and removes the
  listener. \<open>rs\<close> is what the handlers return, each on the log as it stands when
  it is called. The listeners that remain are those not registered with
  \<open>once\<close>, with the disposer they returned if they returned one. An attachment
  that has an element bound was given it by \<open>attach\<close>, which does nothing
  without a document: so there is one.
\<close>

theorem unmount_runs_cleanups_then_handlers:
  assumes "attReach document (a, tr)" and "elementB a = Some e"
    and "listeners a = Some ls" and "ls \<noteq> []"
  shows "\<exists>rs blocks.
           length rs = length ls
         \<and> blocks = map (\<lambda>((k, d), r).
                          Call (hid (func d)) None
                          # (if once d
                             then (case r of
                                     Some c \<Rightarrow> [Dispose c]
                                   | None \<Rightarrow> (case cleanupFn d of
                                               None \<Rightarrow> []
                                             | Some c \<Rightarrow> [Dispose c]))
                             else []))
                      (zip ls rs)
         \<and> (\<forall>i < length ls.
               rs ! i = run (func (snd (ls ! i)))
                          (tr @ concat (map (\<lambda>(k, d). case cleanupFn d of
                                                        None \<Rightarrow> []
                                                      | Some c \<Rightarrow> [Dispose c]) ls)
                              @ concat (take i blocks))
                          None)
         \<and> attach document None a tr
             = (\<lparr> elementB = None,
                  listeners = Some (map (\<lambda>((k, d), r).
                                           (k, case r of
                                                 Some c \<Rightarrow> d\<lparr> cleanupFn := Some c \<rparr>
                                               | None \<Rightarrow> d))
                                      (filter (\<lambda>((k, d), r). \<not> once d) (zip ls rs))) \<rparr>,
                tr @ concat (map (\<lambda>(k, d). case cleanupFn d of
                                             None \<Rightarrow> []
                                           | Some c \<Rightarrow> [Dispose c]) ls)
                   @ concat blocks)"
proof -
  have doc: document using attReach_document [OF assms(1)] assms(2) by simp
  define cs where "cs = concat (map (\<lambda>(k, d). case cleanupFn d of
                                             None \<Rightarrow> []
                                           | Some c \<Rightarrow> [Dispose c]) ls)"
  have rc: "runCleanups ls = cs"
    by (simp add: runCleanups_def cleanupEvents_def cs_def)
  have re: "roundEvents None = (\<lambda>((k, d), r).
                          Call (hid (func d)) None
                          # (if once d
                             then (case r of
                                     Some c \<Rightarrow> [Dispose c]
                                   | None \<Rightarrow> (case cleanupFn d of
                                               None \<Rightarrow> []
                                             | Some c \<Rightarrow> [Dispose c]))
                             else []))"
    by (rule ext) (simp add: roundEvents_def ownEvents_unmount split: prod.splits)
  obtain rs where l: "length rs = length ls"
    and a: "attachLoop None ls (tr @ cs)
        = (map (\<lambda>((k, d), r). (k, case r of Some c \<Rightarrow> d\<lparr> cleanupFn := Some c \<rparr> | None \<Rightarrow> d))
             (filter (\<lambda>((k, d), r). \<not> once d) (zip ls rs)),
           (tr @ cs) @ concat (map (roundEvents None) (zip ls rs)))"
    and n: "\<forall>i < length ls.
            rs ! i = run (func (snd (ls ! i)))
                       ((tr @ cs) @ concat (take i (map (roundEvents None) (zip ls rs)))) None"
    using attachLoop_exact [of ls None "tr @ cs"] by blast
  have att: "attach document None a tr
      = (\<lparr> elementB = None,
           listeners = Some (map (\<lambda>((k, d), r).
                                    (k, case r of Some c \<Rightarrow> d\<lparr> cleanupFn := Some c \<rparr> | None \<Rightarrow> d))
                               (filter (\<lambda>((k, d), r). \<not> once d) (zip ls rs))) \<rparr>,
         tr @ cs @ concat (map (roundEvents None) (zip ls rs)))"
    using doc assms(2,3) a by (simp add: attach_def Let_def rc)
  show ?thesis
    apply (rule exI [of _ rs])
    apply (rule exI [of _ "map (roundEvents None) (zip ls rs)"])
    using l n att unfolding re cs_def by simp
qed


lemma mountedOnce_value:
  "mountedOnce = (\<lparr> elementB = Some 1,
                    listeners = Some [(''default'', \<lparr> func = echoHandler, once = False, cleanupFn = Some 1 \<rparr>)] \<rparr>,
                  [Call (H 0) (Some 1)])"
  by (simp add: mountedOnce_def attach_def createAttach_def echoHandler_def Let_def)

text \<open>
  C4. A disposer is not called at most once: \<open>detach\<close> with \<open>clearEvents\<close> and
  without \<open>clearDefaultEvent\<close> calls the disposer of the \<open>default\<close> listener and
  keeps the listener with that disposer stored; the next \<open>attach\<close> of another
  element calls it again, before the handler has run again.
\<close>

theorem retained_disposer_runs_twice:
  "snd remounted = [Call (H 0) (Some 1), Dispose 1, Dispose 1, Call (H 0) (Some 2)]"
  by (simp add: remounted_def keptDefault_def mountedOnce_value detach_def attach_def
        runCleanups_def cleanupEvents_def echoHandler_def Let_def)

text \<open>
  C8. \<open>detach\<close> with an options object without key in which \<open>eventsOnly\<close> is
  true and \<open>clearEvents\<close> and \<open>clearDefaultEvent\<close> are false throws, with the
  attachment and the log as they were: no disposer has run, the listeners and
  the bound element are unchanged.
\<close>

theorem detach_incompatible_parameters_throws:
  "detach (OptionsArg \<lparr> key = None, clearEvents = Some False,
                        clearDefaultEvent = Some False, eventsOnly = Some True \<rparr>) a tr
     = ((a, tr), Inl IncompatibleParameters)"
  by (simp add: detach_def)

lemma map_of_mapSet: "map_of (mapSet k v m) = (map_of m)(k \<mapsto> v)"
  by (induction m) auto

lemma map_fst_mapSet:
  "map fst (mapSet k v m) = (if k \<in> fst ` set m then map fst m else map fst m @ [k])"
  by (induction m) (auto simp: rev_image_eqI)

lemma attachLoop_calls:
  assumes "(k, d) \<in> set ls"
  shows "\<exists>evs. snd (attachLoop el ls tr) = tr @ evs \<and> Call (hid (func d)) el \<in> set evs"
proof -
  obtain evs where e: "snd (attachLoop el ls tr) = tr @ evs"
    "filter isCall evs = map (\<lambda>(k, d). Call (hid (func d)) el) ls"
    using attachLoop_shape [of el ls tr] by blast
  from assms have "Call (hid (func d)) el \<in> set (map (\<lambda>(k, d). Call (hid (func d)) el) ls)"
    by force
  with e(2) have "Call (hid (func d)) el \<in> set (filter isCall evs)" by simp
  then have "Call (hid (func d)) el \<in> set evs" by simp
  with e(1) show ?thesis by blast
qed

lemma mapSet_mem: "(k, v) \<in> set (mapSet k v m)"
  by (induction m) auto

text \<open>
  C2, as the code has it. On an attachment with an element bound,
  \<open>onAttach(handler, key, once)\<close> calls no handler: the one call it makes is the
  disposer of the listener that is under the key, if that listener has one.
  It stores the new listener under the key, without disposer, in the place of
  the old one or else after all the others, leaving the other listeners and
  the bound element as they are. The handler is called by the next \<open>attach\<close>
  of another value.
\<close>

theorem onAttach_stores_without_calling:
  assumes "elementB a = Some e"
  shows "\<exists>ls'. onAttach h keyArg onceArg a tr =
            (a\<lparr> listeners := Some ls' \<rparr>,
             tr @ (case (case listeners a of None \<Rightarrow> None
                         | Some ls \<Rightarrow> map_of ls (case keyArg of None \<Rightarrow> ''default'' | Some k \<Rightarrow> k)) of
                     None \<Rightarrow> []
                   | Some old \<Rightarrow> (case cleanupFn old of None \<Rightarrow> [] | Some c \<Rightarrow> [Dispose c])))
         \<and> map fst ls'
             = (case listeners a of
                  None \<Rightarrow> [case keyArg of None \<Rightarrow> ''default'' | Some k \<Rightarrow> k]
                | Some ls \<Rightarrow>
                    if (case keyArg of None \<Rightarrow> ''default'' | Some k \<Rightarrow> k) \<in> fst ` set ls
                    then map fst ls
                    else map fst ls @ [case keyArg of None \<Rightarrow> ''default'' | Some k \<Rightarrow> k])
         \<and> map_of ls' (case keyArg of None \<Rightarrow> ''default'' | Some k \<Rightarrow> k)
             = Some \<lparr> func = h, once = (case onceArg of None \<Rightarrow> False | Some b \<Rightarrow> b),
                      cleanupFn = None \<rparr>
         \<and> (\<forall>k. k \<noteq> (case keyArg of None \<Rightarrow> ''default'' | Some k \<Rightarrow> k) \<longrightarrow>
                map_of ls' k = (case listeners a of None \<Rightarrow> None | Some ls \<Rightarrow> map_of ls k))
         \<and> (\<forall>el tr'. el \<noteq> Some e \<longrightarrow>
                Call (hid h) el \<in> set (drop (length tr') (snd (attach True el (a\<lparr> listeners := Some ls' \<rparr>) tr'))))"
proof -
  define K where "K = (case keyArg of None \<Rightarrow> ''default'' | Some k \<Rightarrow> k)"
  define data where "data = \<lparr> func = h, once = (case onceArg of None \<Rightarrow> False | Some b \<Rightarrow> b),
                      cleanupFn = None \<rparr>"
  define ls' where "ls' = (case listeners a of Some ls \<Rightarrow> mapSet K data ls | None \<Rightarrow> [(K, data)])"
  have mem: "(K, data) \<in> set ls'"
    by (simp add: ls'_def mapSet_mem split: option.splits)
  have later: "Call (hid h) el \<in> set (drop (length tr') (snd (attach True el (a\<lparr> listeners := Some ls' \<rparr>) tr')))"
    if "el \<noteq> Some e" for el tr'
  proof -
    obtain evs where e: "snd (attachLoop el ls' (tr' @ runCleanups ls')) = (tr' @ runCleanups ls') @ evs"
      "Call (hid (func data)) el \<in> set evs"
      using attachLoop_calls [OF mem, of el "tr' @ runCleanups ls'"] by blast
    have "snd (attach True el (a\<lparr> listeners := Some ls' \<rparr>) tr') = tr' @ runCleanups ls' @ evs"
      using that assms e(1)
      by (cases "attachLoop el ls' (tr' @ runCleanups ls')") (auto simp: attach_def Let_def)
    with e(2) show ?thesis by (simp add: data_def)
  qed
  show ?thesis
    apply (rule exI [of _ ls'])
    using later
    by (auto simp: onAttach_def Let_def K_def [symmetric] data_def [symmetric] ls'_def
          map_of_mapSet map_fst_mapSet cleanupEvents_def split: option.splits)
qed

text \<open>With element 1 bound, \<open>onAttach\<close> of a new handler leaves the log as it
  was: the handler has not been called with the bound element.\<close>

theorem onAttach_bound_element_not_called:
  "elementB (fst mountedOnce) = Some 1
   \<and> snd (onAttach lateHandler (Some ''late'') (Some True)
            (fst mountedOnce) (snd mountedOnce)) = snd mountedOnce
   \<and> Call (H 1) (Some 1) \<notin> set (snd (onAttach lateHandler (Some ''late'') (Some True)
            (fst mountedOnce) (snd mountedOnce)))"
  by (simp add: mountedOnce_value onAttach_def Let_def)

lemma lateListener_value:
  "lateListener = (\<lparr> elementB = Some 1,
                    listeners = Some [(''default'', \<lparr> func = echoHandler, once = False, cleanupFn = Some 1 \<rparr>),
                                      (''late'', \<lparr> func = lateHandler, once = True, cleanupFn = None \<rparr>)] \<rparr>,
                  [Call (H 0) (Some 1)])"
  by (simp add: lateListener_def mountedOnce_value onAttach_def Let_def)

lemma lateListener_reach: "attReach True (fst lateListener, snd lateListener)"
proof -
  have "attReach True mountedOnce"
    unfolding mountedOnce_def by (rule attReach.attach [OF attReach.create])
  then have "attReach True (fst mountedOnce, snd mountedOnce)" by simp
  then have "attReach True lateListener"
    unfolding lateListener_def by (rule attReach.onAttach)
  then show ?thesis by simp
qed

theorem unmount_runs_cleanups_then_handlers_witness:
  "attReach True (fst lateListener, snd lateListener)
   \<and> elementB (fst lateListener) = Some 1
   \<and> listeners (fst lateListener)
       = Some [(''default'', \<lparr> func = echoHandler, once = False, cleanupFn = Some 1 \<rparr>),
               (''late'', \<lparr> func = lateHandler, once = True, cleanupFn = None \<rparr>)]
   \<and> attach True None (fst lateListener) (snd lateListener)
       = (\<lparr> elementB = None,
            listeners = Some [(''default'', \<lparr> func = echoHandler, once = False, cleanupFn = Some 1 \<rparr>)] \<rparr>,
          [Call (H 0) (Some 1), Dispose 1, Call (H 0) None, Call (H 1) None, Dispose 9])"
proof -
  define ls where "ls = [(''default'', \<lparr> func = echoHandler, once = False, cleanupFn = Some 1 \<rparr>),
                         (''late'', \<lparr> func = lateHandler, once = True, cleanupFn = None \<rparr>)]"
  have e: "elementB (fst lateListener) = Some 1" by (simp add: lateListener_value)
  have l: "listeners (fst lateListener) = Some ls" by (simp add: lateListener_value ls_def)
  have n: "ls \<noteq> []" by (simp add: ls_def)
  have t: "snd lateListener = [Call (H 0) (Some 1)]" by (simp add: lateListener_value)
  from unmount_runs_cleanups_then_handlers [OF lateListener_reach e l n]
  obtain rs blocks where len: "length rs = length ls"
    and b: "blocks = map (\<lambda>((k, d), r).
                          Call (hid (func d)) None
                          # (if once d
                             then (case r of
                                     Some c \<Rightarrow> [Dispose c]
                                   | None \<Rightarrow> (case cleanupFn d of
                                               None \<Rightarrow> []
                                             | Some c \<Rightarrow> [Dispose c]))
                             else []))
                      (zip ls rs)"
    and r: "\<forall>i < length ls.
               rs ! i = run (func (snd (ls ! i)))
                          (snd lateListener
                           @ concat (map (\<lambda>(k, d). case cleanupFn d of
                                                        None \<Rightarrow> []
                                                      | Some c \<Rightarrow> [Dispose c]) ls)
                           @ concat (take i blocks))
                          None"
    and a: "attach True None (fst lateListener) (snd lateListener)
             = (\<lparr> elementB = None,
                  listeners = Some (map (\<lambda>((k, d), r).
                                           (k, case r of
                                                 Some c \<Rightarrow> d\<lparr> cleanupFn := Some c \<rparr>
                                               | None \<Rightarrow> d))
                                      (filter (\<lambda>((k, d), r). \<not> once d) (zip ls rs))) \<rparr>,
                snd lateListener
                @ concat (map (\<lambda>(k, d). case cleanupFn d of
                                             None \<Rightarrow> []
                                           | Some c \<Rightarrow> [Dispose c]) ls)
                @ concat blocks)"
    by blast
  from len obtain r0 r1 where rs: "rs = [r0, r1]"
    by (auto simp: ls_def length_Suc_conv)
  from r [rule_format, of 0] have r0: "r0 = None"
    by (simp add: rs ls_def echoHandler_def)
  from r [rule_format, of 1] have r1: "r1 = Some 9"
    by (simp add: rs ls_def lateHandler_def)
  from a have "attach True None (fst lateListener) (snd lateListener)
       = (\<lparr> elementB = None,
            listeners = Some [(''default'', \<lparr> func = echoHandler, once = False, cleanupFn = Some 1 \<rparr>)] \<rparr>,
          [Call (H 0) (Some 1), Dispose 1, Call (H 0) None, Call (H 1) None, Dispose 9])"
    by (simp add: b rs r0 r1 ls_def t echoHandler_def lateHandler_def)
  with lateListener_reach e l show ?thesis by (simp add: ls_def)
qed

theorem onAttach_stores_without_calling_witness:
  "elementB (fst mountedOnce) = Some 1
   \<and> (\<exists>ls'. onAttach lateHandler None (Some True) (fst mountedOnce) (snd mountedOnce)
             = ((fst mountedOnce)\<lparr> listeners := Some ls' \<rparr>,
                [Call (H 0) (Some 1), Dispose 1])
        \<and> map fst ls' = [''default'']
        \<and> map_of ls' ''default''
            = Some \<lparr> func = lateHandler, once = True, cleanupFn = None \<rparr>
        \<and> Call (H 1) None
            \<in> set (drop 2 (snd (attach True None ((fst mountedOnce)\<lparr> listeners := Some ls' \<rparr>)
                                   [Call (H 0) (Some 1), Dispose 1]))))
   \<and> (\<exists>ls'. onAttach lateHandler (Some ''late'') (Some True) (fst mountedOnce) (snd mountedOnce)
             = ((fst mountedOnce)\<lparr> listeners := Some ls' \<rparr>, [Call (H 0) (Some 1)])
        \<and> map fst ls' = [''default'', ''late'']
        \<and> map_of ls' ''late''
            = Some \<lparr> func = lateHandler, once = True, cleanupFn = None \<rparr>
        \<and> map_of ls' ''default''
            = Some \<lparr> func = echoHandler, once = False, cleanupFn = Some 1 \<rparr>)"
proof -
  have e: "elementB (fst mountedOnce) = Some 1" by (simp add: mountedOnce_value)
  have l: "listeners (fst mountedOnce)
             = Some [(''default'', \<lparr> func = echoHandler, once = False, cleanupFn = Some 1 \<rparr>)]"
    by (simp add: mountedOnce_value)
  have t: "snd mountedOnce = [Call (H 0) (Some 1)]" by (simp add: mountedOnce_value)
  have h: "hid lateHandler = H 1" by (simp add: lateHandler_def)
  from onAttach_stores_without_calling [OF e, of lateHandler "None" "Some True" "snd mountedOnce"]
  obtain ls1 where ls1_raw:
    "onAttach lateHandler None (Some True) (fst mountedOnce) (snd mountedOnce) =
            ((fst mountedOnce)\<lparr> listeners := Some ls1 \<rparr>,
             snd mountedOnce
             @ (case (case listeners (fst mountedOnce) of None \<Rightarrow> None
                         | Some ls \<Rightarrow> map_of ls (case None of None \<Rightarrow> ''default'' | Some k \<Rightarrow> k)) of
                     None \<Rightarrow> []
                   | Some old \<Rightarrow> (case cleanupFn old of None \<Rightarrow> [] | Some c \<Rightarrow> [Dispose c])))"
    "map fst ls1
             = (case listeners (fst mountedOnce) of
                  None \<Rightarrow> [case None of None \<Rightarrow> ''default'' | Some k \<Rightarrow> k]
                | Some ls \<Rightarrow>
                    if (case None of None \<Rightarrow> ''default'' | Some k \<Rightarrow> k) \<in> fst ` set ls
                    then map fst ls
                    else map fst ls @ [case None of None \<Rightarrow> ''default'' | Some k \<Rightarrow> k])"
    "map_of ls1 (case None of None \<Rightarrow> ''default'' | Some k \<Rightarrow> k)
             = Some \<lparr> func = lateHandler, once = (case Some True of None \<Rightarrow> False | Some b \<Rightarrow> b),
                      cleanupFn = None \<rparr>"
    "\<forall>k. k \<noteq> (case None of None \<Rightarrow> ''default'' | Some k \<Rightarrow> k) \<longrightarrow>
                map_of ls1 k = (case listeners (fst mountedOnce) of None \<Rightarrow> None | Some ls \<Rightarrow> map_of ls k)"
    "\<forall>el tr'. el \<noteq> Some 1 \<longrightarrow>
                Call (hid lateHandler) el
                  \<in> set (drop (length tr')
                           (snd (attach True el ((fst mountedOnce)\<lparr> listeners := Some ls1 \<rparr>) tr')))"
    by blast
  have s1: "onAttach lateHandler None (Some True) (fst mountedOnce) (snd mountedOnce)
       = ((fst mountedOnce)\<lparr> listeners := Some ls1 \<rparr>, [Call (H 0) (Some 1), Dispose 1])"
    using ls1_raw(1) by (simp add: l t)
  have s2: "map fst ls1 = [''default'']" using ls1_raw(2) by (simp add: l)
  have s3: "map_of ls1 ''default'' = Some \<lparr> func = lateHandler, once = True, cleanupFn = None \<rparr>"
    using ls1_raw(3) by simp
  from ls1_raw(5) [rule_format, of None "[Call (H 0) (Some 1), Dispose 1]"]
  have s5: "Call (H 1) None
            \<in> set (drop 2 (snd (attach True None ((fst mountedOnce)\<lparr> listeners := Some ls1 \<rparr>)
                                   [Call (H 0) (Some 1), Dispose 1])))"
    by (simp add: numeral_2_eq_2 h)
  from onAttach_stores_without_calling [OF e, of lateHandler "Some ''late''" "Some True" "snd mountedOnce"]
  obtain ls2 where ls2_raw:
    "onAttach lateHandler (Some ''late'') (Some True) (fst mountedOnce) (snd mountedOnce) =
            ((fst mountedOnce)\<lparr> listeners := Some ls2 \<rparr>,
             snd mountedOnce
             @ (case (case listeners (fst mountedOnce) of None \<Rightarrow> None
                         | Some ls \<Rightarrow> map_of ls (case Some ''late'' of None \<Rightarrow> ''default'' | Some k \<Rightarrow> k)) of
                     None \<Rightarrow> []
                   | Some old \<Rightarrow> (case cleanupFn old of None \<Rightarrow> [] | Some c \<Rightarrow> [Dispose c])))"
    "map fst ls2
             = (case listeners (fst mountedOnce) of
                  None \<Rightarrow> [case Some ''late'' of None \<Rightarrow> ''default'' | Some k \<Rightarrow> k]
                | Some ls \<Rightarrow>
                    if (case Some ''late'' of None \<Rightarrow> ''default'' | Some k \<Rightarrow> k) \<in> fst ` set ls
                    then map fst ls
                    else map fst ls @ [case Some ''late'' of None \<Rightarrow> ''default'' | Some k \<Rightarrow> k])"
    "map_of ls2 (case Some ''late'' of None \<Rightarrow> ''default'' | Some k \<Rightarrow> k)
             = Some \<lparr> func = lateHandler, once = (case Some True of None \<Rightarrow> False | Some b \<Rightarrow> b),
                      cleanupFn = None \<rparr>"
    "\<forall>k. k \<noteq> (case Some ''late'' of None \<Rightarrow> ''default'' | Some k \<Rightarrow> k) \<longrightarrow>
                map_of ls2 k = (case listeners (fst mountedOnce) of None \<Rightarrow> None | Some ls \<Rightarrow> map_of ls k)"
    "\<forall>el tr'. el \<noteq> Some 1 \<longrightarrow>
                Call (hid lateHandler) el
                  \<in> set (drop (length tr')
                           (snd (attach True el ((fst mountedOnce)\<lparr> listeners := Some ls2 \<rparr>) tr')))"
    by blast
  have f1: "onAttach lateHandler (Some ''late'') (Some True) (fst mountedOnce) (snd mountedOnce)
       = ((fst mountedOnce)\<lparr> listeners := Some ls2 \<rparr>, [Call (H 0) (Some 1)])"
    using ls2_raw(1) by (simp add: l t)
  have f2: "map fst ls2 = [''default'', ''late'']" using ls2_raw(2) by (simp add: l)
  have f3: "map_of ls2 ''late'' = Some \<lparr> func = lateHandler, once = True, cleanupFn = None \<rparr>"
    using ls2_raw(3) by simp
  from ls2_raw(4) [rule_format, of "''default''"]
  have f5: "map_of ls2 ''default'' = Some \<lparr> func = echoHandler, once = False, cleanupFn = Some 1 \<rparr>"
    by (simp add: l)
  show ?thesis
  proof (intro conjI)
    show "elementB (fst mountedOnce) = Some 1" by (rule e)
    show "\<exists>ls'. onAttach lateHandler None (Some True) (fst mountedOnce) (snd mountedOnce)
             = ((fst mountedOnce)\<lparr> listeners := Some ls' \<rparr>,
                [Call (H 0) (Some 1), Dispose 1])
        \<and> map fst ls' = [''default'']
        \<and> map_of ls' ''default''
            = Some \<lparr> func = lateHandler, once = True, cleanupFn = None \<rparr>
        \<and> Call (H 1) None
            \<in> set (drop 2 (snd (attach True None ((fst mountedOnce)\<lparr> listeners := Some ls' \<rparr>)
                                   [Call (H 0) (Some 1), Dispose 1])))"
      by (rule exI [of _ ls1]) (intro conjI s1 s2 s3 s5)
    show "\<exists>ls'. onAttach lateHandler (Some ''late'') (Some True) (fst mountedOnce) (snd mountedOnce)
             = ((fst mountedOnce)\<lparr> listeners := Some ls' \<rparr>, [Call (H 0) (Some 1)])
        \<and> map fst ls' = [''default'', ''late'']
        \<and> map_of ls' ''late''
            = Some \<lparr> func = lateHandler, once = True, cleanupFn = None \<rparr>
        \<and> map_of ls' ''default''
            = Some \<lparr> func = echoHandler, once = False, cleanupFn = Some 1 \<rparr>"
      by (rule exI [of _ ls2]) (intro conjI f1 f2 f3 f5)
  qed
qed

section \<open>Properties of createBoolLazyFalse\<close>

lemma sysInv_create: "sysInv (sysCreate initialValue ms cin cout)"
  by (simp add: sysInv_def sysCreate_def createBoolLazyFalse_def newClock_def Let_def)

lemma sysInv_set: "sysInv s \<Longrightarrow> sysInv (sysSet v cb s)"
  by (auto simp: sysInv_def sysSet_def setB_def clearTimeouts_def clearTimeout_def
        setState_def setTimeout_def Let_def split: option.splits BoolLazyFalseState.splits)

lemma sysInv_toggle: "sysInv s \<Longrightarrow> sysInv (sysToggle cb s)"
  using sysInv_set [of s "state (inst s) \<noteq> TRUE" cb]
  by (simp add: sysToggle_def sysSet_def toggle_def)

lemma sysInv_cleanup: "sysInv s \<Longrightarrow> sysInv (sysCleanup s)"
  by (auto simp: sysInv_def sysCleanup_def cleanup_def clearTimeouts_def clearTimeout_def
        split: option.splits)

lemma sysElapse_idle:
  "pendingTimers (clock s) = [] \<Longrightarrow> sysElapse d s = s"
  by (simp add: sysElapse_def dueHandles_def advance_def)

lemma sysElapse_early:
  "pendingTimers (clock s) = [(h, ms, ())] \<Longrightarrow> d < ms \<Longrightarrow>
   sysElapse d s = s\<lparr> clock := (clock s)\<lparr> pendingTimers := [(h, ms - d, ())] \<rparr> \<rparr>"
  by (simp add: sysElapse_def dueHandles_def advance_def)

lemma sysElapse_due:
  "pendingTimers (clock s) = [(h, ms, ())] \<Longrightarrow> ms \<le> d \<Longrightarrow>
   sysElapse d s = \<lparr> inst = fst (timerCallback (inst s)),
                     clock = (clock s)\<lparr> pendingTimers := [] \<rparr>,
                     made = made s @ snd (timerCallback (inst s)) \<rparr>"
  by (simp add: sysElapse_def dueHandles_def advance_def sysFire_def takeTimer_def
        clearTimeout_def case_prod_beta)

lemma sysInv_elapse: "sysInv s \<Longrightarrow> sysInv (sysElapse d s)"
proof -
  assume i: "sysInv s"
  show ?thesis
  proof (cases "pendingTimers (clock s) = []")
    case True
    then show ?thesis using i by (simp add: sysElapse_idle)
  next
    case False
    with i obtain h ms where p: "pendingTimers (clock s) = [(h, ms, ())]"
      "timeout (inst s) = Some h" "state (inst s) = BECOMING_FALSE"
      by (auto simp: sysInv_def)
    show ?thesis
    proof (cases "d < ms")
      case True
      then show ?thesis using p by (simp add: sysElapse_early sysInv_def)
    next
      case False
      then show ?thesis using p by (simp add: sysElapse_due sysInv_def)
    qed
  qed
qed

lemma sysReach_inv: "sysReach s \<Longrightarrow> sysInv s"
  by (induction rule: sysReach.induct)
     (simp_all add: sysInv_create sysInv_set sysInv_toggle sysInv_cleanup sysInv_elapse)


lemma sysSet_cancels:
  assumes "sysInv s" and "state (inst (sysSet v cb s)) \<noteq> state (inst s)"
    and "h \<in> fst ` set (pendingTimers (clock s))"
  shows "h \<notin> fst ` set (pendingTimers (clock (sysSet v cb s)))"
  using assms
  by (auto simp: sysInv_def sysSet_def setB_def clearTimeouts_def clearTimeout_def
        setState_def setTimeout_def Let_def split: option.splits if_splits)

lemma timeout_kept_set:
  "timeout (inst s) \<noteq> None \<Longrightarrow> timeout (inst (sysSet v cb s)) \<noteq> None"
  by (auto simp: sysSet_def setB_def clearTimeouts_def setState_def setTimeout_def Let_def
        split: option.splits)

lemma timeout_kept_toggle:
  "timeout (inst s) \<noteq> None \<Longrightarrow> timeout (inst (sysToggle cb s)) \<noteq> None"
  using timeout_kept_set [of s "state (inst s) \<noteq> TRUE" cb]
  by (simp add: sysToggle_def sysSet_def toggle_def)

lemma timeout_kept_cleanup:
  "timeout (inst s) \<noteq> None \<Longrightarrow> timeout (inst (sysCleanup s)) \<noteq> None"
  by (simp add: sysCleanup_def cleanup_def clearTimeouts_def)

lemma timeout_kept_fire: "timeout (inst (sysFire h s)) = timeout (inst s)"
  by (simp add: sysFire_def timerCallback_def setState_def split: option.splits prod.splits)

lemma timeout_kept_fires:
  "timeout (inst (foldl (\<lambda>s' h. sysFire h s') s hs)) = timeout (inst s)"
  by (induction hs arbitrary: s) (simp_all add: timeout_kept_fire)

lemma timeout_kept_elapse: "timeout (inst (sysElapse d s)) = timeout (inst s)"
  by (simp add: sysElapse_def timeout_kept_fires)

text \<open>
  C7, as the code has it. In every state an instance can reach, at most one
  timer is pending; one is pending only while the state is \<open>BECOMING_FALSE\<close>,
  and it is the one whose handle \<open>timeout\<close> holds; a call of \<open>set\<close> that changes
  the state leaves none of the timers that were pending. The variable
  \<open>timeout\<close> itself is never reset: once it holds a handle it holds one
  after every \<open>set\<close>, \<open>toggle\<close> and \<open>cleanup\<close> and after any time has passed,
  whether its timer has fired or was cleared.
\<close>

theorem at_most_one_live_timer:
  assumes "sysReach s"
  shows "length (pendingTimers (clock s)) \<le> 1
       \<and> (pendingTimers (clock s) \<noteq> [] \<longrightarrow>
            state (inst s) = BECOMING_FALSE
            \<and> (\<exists>h ms. timeout (inst s) = Some h \<and> pendingTimers (clock s) = [(h, ms, ())]))
       \<and> (\<forall>v cb h. state (inst (sysSet v cb s)) \<noteq> state (inst s)
              \<and> h \<in> fst ` set (pendingTimers (clock s))
              \<longrightarrow> h \<notin> fst ` set (pendingTimers (clock (sysSet v cb s))))
       \<and> (timeout (inst s) \<noteq> None \<longrightarrow>
            (\<forall>v cb. timeout (inst (sysSet v cb s)) \<noteq> None)
            \<and> (\<forall>cb. timeout (inst (sysToggle cb s)) \<noteq> None)
            \<and> timeout (inst (sysCleanup s)) \<noteq> None
            \<and> (\<forall>d. timeout (inst (sysElapse d s)) \<noteq> None))"
proof -
  have i: "sysInv s" using assms by (rule sysReach_inv)
  have a: "length (pendingTimers (clock s)) \<le> 1" using i by (auto simp: sysInv_def)
  have b: "pendingTimers (clock s) \<noteq> [] \<longrightarrow>
            state (inst s) = BECOMING_FALSE
            \<and> (\<exists>h ms. timeout (inst s) = Some h \<and> pendingTimers (clock s) = [(h, ms, ())])"
    using i by (auto simp: sysInv_def)
  have c: "\<forall>v cb h. state (inst (sysSet v cb s)) \<noteq> state (inst s)
              \<and> h \<in> fst ` set (pendingTimers (clock s))
              \<longrightarrow> h \<notin> fst ` set (pendingTimers (clock (sysSet v cb s)))"
    using sysSet_cancels [OF i] by blast
  have k: "timeout (inst s) \<noteq> None \<longrightarrow>
            (\<forall>v cb. timeout (inst (sysSet v cb s)) \<noteq> None)
            \<and> (\<forall>cb. timeout (inst (sysToggle cb s)) \<noteq> None)
            \<and> timeout (inst (sysCleanup s)) \<noteq> None
            \<and> (\<forall>d. timeout (inst (sysElapse d s)) \<noteq> None)"
    using timeout_kept_set [of s] timeout_kept_toggle [of s] timeout_kept_cleanup [of s]
    by (simp add: timeout_kept_elapse)
  from a b c k show ?thesis by (intro conjI)
qed

lemma closing_value:
  "timeout (inst closing) = Some 1 \<and> state (inst closing) = BECOMING_FALSE
   \<and> pendingTimers (clock closing) = [(1, 200, ())] \<and> nextHandle (clock closing) = 2
   \<and> onChange (inst closing) = None \<and> disposed (inst closing) = False
   \<and> delay (inst closing) = 200"
  by (simp add: closing_def sysSet_def sysCreate_def createBoolLazyFalse_def setB_def
        clearTimeouts_def clearTimeout_def setState_def setTimeout_def timerDelay_def
        newClock_def effect_def Let_def)

lemma reopened_value:
  "timeout (inst reopened) = Some 1 \<and> state (inst reopened) = TRUE
   \<and> pendingTimers (clock reopened) = []"
  by (simp add: reopened_def closing_value sysSet_def setB_def
        clearTimeouts_def clearTimeout_def setState_def Let_def)

lemma landed_value:
  "timeout (inst landed) = Some 1 \<and> state (inst landed) = FALSE
   \<and> pendingTimers (clock landed) = []"
  by (simp add: landed_def closing_value sysElapse_due timerCallback_def setState_def)

lemma closing_reach: "sysReach closing"
  unfolding closing_def by (rule sysReach.set [OF sysReach.create])

text \<open>After the exit was cancelled by \<open>set(true)\<close> the state is \<open>TRUE\<close>, and after
  the timer has fired it is \<open>FALSE\<close>; in both the handle is still in \<open>timeout\<close>.\<close>

theorem timer_handle_kept_after_cancel:
  "timeout (inst reopened) = Some 1 \<and> state (inst reopened) = TRUE
   \<and> timeout (inst landed) = Some 1 \<and> state (inst landed) = FALSE"
  by (simp add: reopened_value landed_value)

theorem at_most_one_live_timer_witness:
  "sysReach closing
   \<and> pendingTimers (clock closing) \<noteq> []
   \<and> state (inst (sysSet True None closing)) \<noteq> state (inst closing)
   \<and> 1 \<in> fst ` set (pendingTimers (clock closing))
   \<and> timeout (inst closing) \<noteq> None
   \<and> length (pendingTimers (clock closing)) \<le> 1
   \<and> state (inst closing) = BECOMING_FALSE
   \<and> 1 \<notin> fst ` set (pendingTimers (clock (sysSet True None closing)))
   \<and> timeout (inst (sysSet True None closing)) \<noteq> None
   \<and> timeout (inst (sysElapse 200 closing)) \<noteq> None"
proof -
  have p: "pendingTimers (clock closing) \<noteq> []" by (simp add: closing_value)
  have c: "state (inst (sysSet True None closing)) \<noteq> state (inst closing)"
    using reopened_value by (simp add: reopened_def closing_value)
  have m: "1 \<in> fst ` set (pendingTimers (clock closing))" by (simp add: closing_value)
  have t: "timeout (inst closing) \<noteq> None" by (simp add: closing_value)
  from at_most_one_live_timer [OF closing_reach] closing_reach p c m t
  show ?thesis by blast
qed

lemma sysSet_true_result:
  assumes "sysInv s"
  shows "state (inst (sysSet True None s)) = TRUE
       \<and> pendingTimers (clock (sysSet True None s)) = []
       \<and> delay (inst (sysSet True None s)) = delay (inst s)
       \<and> (\<exists>acts. made (sysSet True None s) = made s @ acts \<and> (\<forall>c. Invoke c \<notin> set acts))"
  using assms
  by (auto simp: sysInv_def sysSet_def setB_def clearTimeouts_def clearTimeout_def
        setState_def effect_def Let_def split: option.splits)

lemma sysSet_false_from_true:
  assumes "state (inst s) = TRUE" and "pendingTimers (clock s) = []"
  shows "state (inst (sysSet False cb s)) = BECOMING_FALSE
       \<and> pendingTimers (clock (sysSet False cb s))
           = [(nextHandle (clock s), timerDelay (delay (inst s)), ())]
       \<and> timeout (inst (sysSet False cb s)) = Some (nextHandle (clock s))
       \<and> (\<exists>acts. made (sysSet False cb s) = made s @ acts \<and> (\<forall>c. Invoke c \<notin> set acts))"
  using assms
  by (auto simp: sysSet_def setB_def clearTimeouts_def clearTimeout_def
        setState_def setTimeout_def effect_def Let_def split: option.splits)


text \<open>
  C6, as the code has it. On every instance whose delay is one that a timer
  keeps, at most \<open>2^31 - 1\<close> ms: \<open>set(true)\<close>, then \<open>set(false, cb)\<close>, then
  \<open>set(true)\<close> at a time \<open>d\<close> before the delay has passed. \<open>lazyBool()\<close> is
  true after each call, at every time up to \<open>d\<close> in between, and at every time
  afterwards, and \<open>cb\<close> is not among the calls the instance makes.
\<close>

theorem reopen_before_delay_keeps_lazyBool:
  assumes "sysReach s" and "delay (inst s) \<le> 2147483647" and "d < delay (inst s)"
  shows "let s1 = sysSet True None s;
             s2 = sysSet False (Some cb) s1;
             s4 = sysSet True None (sysElapse d s2)
         in lazyBool (inst s1) \<and> lazyBool (inst s2)
          \<and> (\<forall>t \<le> d. lazyBool (inst (sysElapse t s2)))
          \<and> lazyBool (inst s4)
          \<and> (\<forall>t. lazyBool (inst (sysElapse t s4))
                 \<and> Invoke cb \<notin> set (drop (length (made s)) (made (sysElapse t s4))))"
proof -
  define s1 where "s1 = sysSet True None s"
  define s2 where "s2 = sysSet False (Some cb) s1"
  define s3 where "s3 = sysElapse d s2"
  define s4 where "s4 = sysSet True None s3"
  have i: "sysInv s" using assms(1) by (rule sysReach_inv)
  from sysSet_true_result [OF i] obtain a1 where
    t1: "state (inst s1) = TRUE" and p1: "pendingTimers (clock s1) = []"
    and d1: "delay (inst s1) = delay (inst s)"
    and m1: "made s1 = made s @ a1" and n1: "\<forall>c. Invoke c \<notin> set a1"
    unfolding s1_def by blast
  from sysSet_false_from_true [OF t1 p1, of "Some cb"] obtain a2 where
    t2: "state (inst s2) = BECOMING_FALSE"
    and p2: "pendingTimers (clock s2)
               = [(nextHandle (clock s1), timerDelay (delay (inst s1)), ())]"
    and h2: "timeout (inst s2) = Some (nextHandle (clock s1))"
    and m2: "made s2 = made s1 @ a2" and n2: "\<forall>c. Invoke c \<notin> set a2"
    unfolding s2_def by blast
  have td: "timerDelay (delay (inst s1)) = delay (inst s)"
    using assms(2) d1 by (simp add: timerDelay_def)
  have early: "sysElapse t s2
      = s2\<lparr> clock := (clock s2)\<lparr> pendingTimers := [(nextHandle (clock s1), delay (inst s) - t, ())] \<rparr> \<rparr>"
    if "t \<le> d" for t
    using sysElapse_early [OF p2, of t] that assms(3) td by simp
  have l23: "\<forall>t \<le> d. lazyBool (inst (sysElapse t s2))"
    using early t2 by (simp add: lazyBool_def)
  have s3v: "s3 = s2\<lparr> clock := (clock s2)\<lparr> pendingTimers := [(nextHandle (clock s1), delay (inst s) - d, ())] \<rparr> \<rparr>"
    unfolding s3_def using early [of d] by simp
  have i3: "sysInv s3" using s3v t2 h2 by (simp add: sysInv_def)
  have m3: "made s3 = made s2" using s3v by simp
  from sysSet_true_result [OF i3] obtain a4 where
    t4: "state (inst s4) = TRUE" and p4: "pendingTimers (clock s4) = []"
    and m4: "made s4 = made s3 @ a4" and n4: "\<forall>c. Invoke c \<notin> set a4"
    unfolding s4_def by blast
  have idle: "sysElapse t s4 = s4" for t using p4 by (rule sysElapse_idle)
  have made4: "drop (length (made s)) (made s4) = a1 @ a2 @ a4"
    using m1 m2 m3 m4 by simp
  have no: "Invoke cb \<notin> set (drop (length (made s)) (made s4))"
    using made4 n1 n2 n4 by simp
  have "lazyBool (inst s1)" using t1 by (simp add: lazyBool_def)
  moreover have "lazyBool (inst s2)" using t2 by (simp add: lazyBool_def)
  moreover have "lazyBool (inst s4)" using t4 by (simp add: lazyBool_def)
  ultimately show ?thesis
    using l23 idle no
    by (simp add: Let_def s1_def [symmetric] s2_def [symmetric] s3_def [symmetric]
          s4_def [symmetric])
qed

lemma opened_reach: "sysReach opened"
  unfolding opened_def by (rule sysReach.set [OF sysReach.create])

lemma opened_value: "delay (inst opened) = 200 \<and> made opened = [Anim None None]"
  by (simp add: opened_def sysSet_def sysCreate_def createBoolLazyFalse_def setB_def
        clearTimeouts_def setState_def newClock_def effect_def Let_def)

theorem reopen_before_delay_keeps_lazyBool_witness:
  "sysReach opened \<and> delay (inst opened) \<le> 2147483647 \<and> (199::nat) < delay (inst opened)
   \<and> lazyBool (inst (sysSet False (Some 7) (sysSet True None opened)))
   \<and> lazyBool (inst (sysElapse 199 (sysSet False (Some 7) (sysSet True None opened))))
   \<and> lazyBool (inst (sysSet True None
         (sysElapse 199 (sysSet False (Some 7) (sysSet True None opened)))))
   \<and> Invoke 7 \<notin> set (drop (length (made opened)) (made (sysElapse 500 (sysSet True None
         (sysElapse 199 (sysSet False (Some 7) (sysSet True None opened)))))))"
proof -
  have b: "delay (inst opened) \<le> 2147483647" by (simp add: opened_value)
  have d: "(199::nat) < delay (inst opened)" by (simp add: opened_value)
  from reopen_before_delay_keeps_lazyBool [OF opened_reach b d, of 7] opened_reach b d
  show ?thesis by (simp add: Let_def)
qed

text \<open>With a delay of \<open>2^31\<close> ms the exit lands after 1 ms: 50 ms after
  \<open>set(true)\<close> and \<open>set(false, cb)\<close>, long before the delay has passed,
  \<open>lazyBool()\<close> is false and \<open>cb\<close> has been called.\<close>

theorem overlong_delay_lands_early:
  "(50::nat) < delay (inst overlong)
   \<and> \<not> lazyBool (inst (sysElapse 50 overlong))
   \<and> Invoke 7 \<in> set (made (sysElapse 50 overlong))"
  by (simp add: overlong_def sysSet_def sysCreate_def createBoolLazyFalse_def setB_def
        clearTimeouts_def clearTimeout_def setState_def setTimeout_def timerDelay_def
        newClock_def effect_def Let_def sysElapse_def dueHandles_def advance_def
        sysFire_def takeTimer_def timerCallback_def lazyBool_def)

section \<open>Properties of the registry\<close>

lemma scrollLockEffect_nonneg: "0 \<le> scrollLockCount (scrollLockEffect r)"
  by (simp add: scrollLockEffect_def Let_def)

lemma runScrollLockEffect_nonneg: "0 \<le> scrollLockCount (runScrollLockEffect r)"
  using scrollLockEffect_nonneg [of r] scrollLockEffect_nonneg [of "scrollLockEffect r"]
  by (auto simp: runScrollLockEffect_def Let_def)

lemma task_nonneg: "0 \<le> scrollLockCount r \<Longrightarrow> 0 \<le> scrollLockCount (task f r)"
  using runScrollLockEffect_nonneg [of "f r"] by (auto simp: task_def Let_def)

lemma task_clamps:
  "0 \<le> scrollLockCount r \<Longrightarrow> scrollLockCount (f r) < 0 \<Longrightarrow> scrollLockCount (task f r) = 0"
  by (simp add: task_def Let_def runScrollLockEffect_def scrollLockEffect_def)

lemma foldl_task_nonneg:
  "0 \<le> scrollLockCount r \<Longrightarrow> 0 \<le> scrollLockCount (foldl (\<lambda>r' h. task (g h) r') r hs)"
  by (induction hs arbitrary: r) (simp_all add: task_nonneg)

lemma elapse_nonneg: "0 \<le> scrollLockCount r \<Longrightarrow> 0 \<le> scrollLockCount (elapse d r)"
  unfolding elapse_def by (rule foldl_task_nonneg) simp

lemma attachRef_count: "scrollLockCount (attachRef ref el r) = scrollLockCount r"
  by (simp add: attachRef_def split: prod.splits)

lemma reachable_nonneg: "reachable r \<Longrightarrow> 0 \<le> scrollLockCount r"
  by (induction rule: reachable.induct)
     (simp_all add: newStore_def task_nonneg elapse_nonneg attachRef_count)

text \<open>
  C3. In every state that the registry reaches by \<open>registerOverlay\<close>,
  \<open>unregisterOverlay\<close>, \<open>openOverlay\<close>, \<open>closeOverlay\<close>, the callbacks of their
  timers and the mounting of elements, \<open>scrollLockCount\<close> is at least zero;
  and when what a task computes would leave it below zero, it is zero once
  the task and the effect it made stale have run.
\<close>

theorem scrollLockCount_never_negative:
  assumes "reachable r"
  shows "0 \<le> scrollLockCount r
       \<and> (\<forall>f. scrollLockCount (f r) < 0 \<longrightarrow> scrollLockCount (task f r) = 0)"
  using reachable_nonneg [OF assms] task_clamps by blast

text \<open>
  C9. For an id that is not in the \<open>overlays\<close> map, \<open>openOverlay\<close>,
  \<open>closeOverlay\<close> and \<open>unregisterOverlay\<close> return with the whole store as it
  was.
\<close>

theorem unknown_id_is_noop:
  assumes "map_of (overlays r) i = None"
  shows "task (openOverlay i) r = r \<and> task (closeOverlay i) r = r
       \<and> task (unregisterOverlay i) r = r"
  using assms by (simp add: task_def openOverlay_def closeOverlay_def unregisterOverlay_def)

lemma mismatched_reach: "reachable mismatched"
  unfolding mismatched_def
  by (rule reachable.register [OF reachable.register [OF reachable.new]])

lemma mismatched_value:
  "overlays mismatched = [(''A'', 1)] \<and> openOverlays mismatched = [''A'']
   \<and> scrollLockCount mismatched = 0
   \<and> map_option wasScrollLocked (objects mismatched 1) = Some True"
  by (simp add: mismatched_def task_def registerOverlay_def runHook_def plainOverlay_def
        newStore_def createBoolLazyFalse_def effect_def updateOverlayVisibilityState_def
        applyAnimation_def attachmentOf_def noRefs_def createAttach_def onAttach_def
        Let_def)

lemma mismatched_unregister: "scrollLockCount (unregisterOverlay ''A'' mismatched) = - 1"
  using mismatched_value
  by (auto simp: unregisterOverlay_def cleanup_def clearTimeouts_def detachRef_def detach_def
        updateOverlayVisibilityState_def Let_def split: option.splits prod.splits)


lemma applyAnimation_store:
  "openOverlays (applyAnimation ref x y r) = openOverlays r
   \<and> topmostOverlay (applyAnimation ref x y r) = topmostOverlay r
   \<and> scrollLockCount (applyAnimation ref x y r) = scrollLockCount r
   \<and> overlays (applyAnimation ref x y r) = overlays r
   \<and> objects (applyAnimation ref x y r) = objects r
   \<and> timers (applyAnimation ref x y r) = timers r
   \<and> savedScrollY (applyAnimation ref x y r) = savedScrollY r
   \<and> nextObject (applyAnimation ref x y r) = nextObject r"
  by (simp add: applyAnimation_def split: option.splits prod.splits)

lemma runHook_store:
  "openOverlays (snd (runHook k i hk r)) = openOverlays r
   \<and> topmostOverlay (snd (runHook k i hk r)) = topmostOverlay r
   \<and> scrollLockCount (snd (runHook k i hk r)) = scrollLockCount r
   \<and> overlays (snd (runHook k i hk r)) = overlays r
   \<and> objects (snd (runHook k i hk r)) = objects r
   \<and> timers (snd (runHook k i hk r)) = timers r
   \<and> attachments (snd (runHook k i hk r)) = attachments r
   \<and> savedScrollY (snd (runHook k i hk r)) = savedScrollY r
   \<and> nextObject (snd (runHook k i hk r)) = nextObject r"
  by (simp add: runHook_def split: option.splits)

lemma closeOverlay_from_open:
  assumes "map_of (overlays r) i = Some a" and "objects r a = Some ov"
    and "state (visibilityState ov) = TRUE" and "\<not> disposed (visibilityState ov)"
    and "\<forall>f. onBeforeClose (props ov) = Some f \<longrightarrow> \<not> f (openOverlays r) (topmostOverlay r)"
  shows "openOverlays (closeOverlay i r) = openOverlays r"
    and "topmostOverlay (closeOverlay i r) = topmostOverlay r"
    and "scrollLockCount (closeOverlay i r) = scrollLockCount r"
    and "overlays (closeOverlay i r) = overlays r"
    and "objects (closeOverlay i r)
           = (objects r)(a := Some (ov\<lparr> visibilityState := (visibilityState ov)
                \<lparr> state := BECOMING_FALSE, timeout := Some (nextHandle (timers r)),
                  onChange := Some (CloseCallback i a) \<rparr> \<rparr>))"
    and "timers (closeOverlay i r)
           = \<lparr> pendingTimers =
                 pendingTimers (snd (clearTimeouts (visibilityState ov) (timers r)))
                 @ [(nextHandle (timers r), timerDelay (delay (visibilityState ov)), a)],
               nextHandle = Suc (nextHandle (timers r)) \<rparr>"
  using assms
  by (auto simp: closeOverlay_def runHook_def withVisibility_def setB_def clearTimeouts_def
        clearTimeout_def setState_def setTimeout_def effect_def applyAnimation_store Let_def
        split: option.splits)


lemma find_last_timer:
  "\<forall>t \<in> set P. fst t \<noteq> h \<Longrightarrow> find (\<lambda>(h', ms, p). h' = h) (P @ [(h, d, a)]) = Some (h, d, a)"
  by (induction P) auto

lemma filter_other_timers:
  "\<forall>t \<in> set P. fst t \<noteq> h \<Longrightarrow> filter (\<lambda>(h', ms, p). h' \<noteq> h) P = P"
  by (induction P) auto

lemma takeTimer_last:
  assumes "\<forall>t \<in> set P. fst t \<noteq> h"
  shows "takeTimer h \<lparr> pendingTimers = P @ [(h, d, a)], nextHandle = n \<rparr>
           = Some (a, \<lparr> pendingTimers = P, nextHandle = n \<rparr>)"
  using assms by (simp add: takeTimer_def clearTimeout_def find_last_timer filter_other_timers)

lemma clearTimeouts_pending_subset:
  "set (pendingTimers (snd (clearTimeouts b c))) \<subseteq> set (pendingTimers c)"
  by (auto simp: clearTimeouts_def clearTimeout_def split: option.splits)

lemma scrollLockEffect_store:
  "openOverlays (scrollLockEffect r) = openOverlays r
   \<and> topmostOverlay (scrollLockEffect r) = topmostOverlay r
   \<and> overlays (scrollLockEffect r) = overlays r
   \<and> objects (scrollLockEffect r) = objects r
   \<and> timers (scrollLockEffect r) = timers r
   \<and> attachments (scrollLockEffect r) = attachments r
   \<and> trace (scrollLockEffect r) = trace r
   \<and> nextObject (scrollLockEffect r) = nextObject r
   \<and> scrollLockCount (scrollLockEffect r) = max 0 (scrollLockCount r)"
  by (simp add: scrollLockEffect_def Let_def)

lemma task_store:
  "openOverlays (task f r) = openOverlays (f r)
   \<and> topmostOverlay (task f r) = topmostOverlay (f r)
   \<and> overlays (task f r) = overlays (f r)
   \<and> objects (task f r) = objects (f r)
   \<and> timers (task f r) = timers (f r)
   \<and> attachments (task f r) = attachments (f r)
   \<and> trace (task f r) = trace (f r)
   \<and> nextObject (task f r) = nextObject (f r)"
  by (simp add: task_def runScrollLockEffect_def scrollLockEffect_store Let_def)

lemma task_count:
  "scrollLockCount (task f r)
     = (if scrollLockCount (f r) = scrollLockCount r then scrollLockCount r
        else max 0 (scrollLockCount (f r)))"
  by (simp add: task_def runScrollLockEffect_def scrollLockEffect_store Let_def)

lemma timerFires_close_lands:
  assumes "takeTimer h (timers s) = Some (a, c)" and "objects s a = Some ov"
    and "state (visibilityState ov) = BECOMING_FALSE"
    and "onChange (visibilityState ov) = Some (CloseCallback i a)"
    and "\<not> disposed (visibilityState ov)"
  shows "timerFires h s
           = closeCallback i a
               (s\<lparr> objects := (objects s)(a := Some (ov\<lparr> visibilityState :=
                                  (visibilityState ov)\<lparr> state := FALSE \<rparr> \<rparr>)),
                   timers := c \<rparr>)"
  using assms
  by (simp add: timerFires_def withVisibility_def timerCallback_def setState_def effect_def)


text \<open>
  C1, as the code has it. For an overlay that is open and whose
  \<open>onBeforeClose\<close> does not cancel, \<open>closeOverlay\<close> itself changes neither the
  open set, nor the topmost overlay, nor the lock count. When the exit timer
  fires the state becomes \<open>FALSE\<close>, and \<open>onAfterClose\<close> runs first, on the store
  as it was before any bookkeeping. If it cancels, nothing else happens: the
  open set, the topmost overlay, the lock count and the ref stay as they
  were. If it does not, or there is none, the ref is detached and then the id
  leaves the open set, the topmost overlay is computed again, and the lock
  count is decremented if the overlay held the lock, not below zero.
\<close>

theorem exit_landing_hook_before_bookkeeping:
  assumes reg: "map_of (overlays r) i = Some a" and obj: "objects r a = Some ov"
    and vis: "state (visibilityState ov) = TRUE" and live: "\<not> disposed (visibilityState ov)"
    and before: "\<forall>f. onBeforeClose (props ov) = Some f
                    \<longrightarrow> \<not> f (openOverlays r) (topmostOverlay r)"
    and fresh: "\<forall>t \<in> set (pendingTimers (timers r)). fst t < nextHandle (timers r)"
  defines "r1 \<equiv> task (closeOverlay i) r"
    and "ref \<equiv> elementRef (props ov)"
    and "cancelled \<equiv> (case onAfterClose (props ov) of
                         None \<Rightarrow> False
                       | Some f \<Rightarrow> f (openOverlays r) (topmostOverlay r))"
  defines "r2 \<equiv> task (timerFires (nextHandle (timers r))) r1"
  shows "openOverlays r1 = openOverlays r \<and> topmostOverlay r1 = topmostOverlay r
       \<and> scrollLockCount r1 = scrollLockCount r
       \<and> map_option (\<lambda>od. state (visibilityState od)) (objects r1 a) = Some BECOMING_FALSE
       \<and> map_option (\<lambda>od. state (visibilityState od)) (objects r2 a) = Some FALSE
       \<and> (cancelled \<longrightarrow>
             openOverlays r2 = openOverlays r \<and> topmostOverlay r2 = topmostOverlay r
           \<and> scrollLockCount r2 = scrollLockCount r
           \<and> attachments r2 = attachments r1
           \<and> trace r2 = trace r1 @ [HookRun AfterClose i])
       \<and> (\<not> cancelled \<longrightarrow>
             openOverlays r2 = filter (\<lambda>x. x \<noteq> i) (openOverlays r)
           \<and> topmostOverlay r2 = lastOrUndefined (filter (\<lambda>x. x \<noteq> i) (openOverlays r))
           \<and> scrollLockCount r2
               = (if wasScrollLocked ov \<and> i \<in> set (openOverlays r)
                  then max 0 (scrollLockCount r - 1) else scrollLockCount r)
           \<and> attachments r2 ref = \<lparr> elementB = None, listeners = None \<rparr>
           \<and> trace r2 = trace r1
                 @ (case onAfterClose (props ov) of None \<Rightarrow> [] | Some f \<Rightarrow> [HookRun AfterClose i])
                 @ (case listeners (attachments r1 ref) of None \<Rightarrow> [] | Some ls \<Rightarrow> runCleanups ls))"
proof -
  define h where "h = nextHandle (timers r)"
  define P where "P = pendingTimers (snd (clearTimeouts (visibilityState ov) (timers r)))"
  define ov1 where "ov1 = ov\<lparr> visibilityState := (visibilityState ov)
                \<lparr> state := BECOMING_FALSE, timeout := Some h,
                  onChange := Some (CloseCallback i a) \<rparr> \<rparr>"
  note c = closeOverlay_from_open [OF reg obj vis live before]
  have same: "scrollLockCount (closeOverlay i r) = scrollLockCount r" by (rule c(3))
  have r1: "r1 = closeOverlay i r" by (simp add: r1_def task_def same)
  have o1: "openOverlays r1 = openOverlays r" "topmostOverlay r1 = topmostOverlay r"
    "scrollLockCount r1 = scrollLockCount r"
    by (simp_all add: r1 c)
  have ob1: "objects r1 a = Some ov1" by (simp add: r1 c ov1_def h_def)
  have t1: "timers r1 = \<lparr> pendingTimers = P @ [(h, timerDelay (delay (visibilityState ov)), a)],
                          nextHandle = Suc h \<rparr>"
    by (simp add: r1 c P_def h_def)
  have "\<forall>t \<in> set P. fst t \<noteq> h"
    using fresh clearTimeouts_pending_subset [of "visibilityState ov" "timers r"]
    by (fastforce simp: P_def h_def)
  then have take: "takeTimer h (timers r1) = Some (a, \<lparr> pendingTimers = P, nextHandle = Suc h \<rparr>)"
    unfolding t1 by (rule takeTimer_last)
  have fire: "timerFires h r1 = closeCallback i a
               (r1\<lparr> objects := (objects r1)(a := Some (ov1\<lparr> visibilityState :=
                                  (visibilityState ov1)\<lparr> state := FALSE \<rparr> \<rparr>)),
                   timers := \<lparr> pendingTimers = P, nextHandle = Suc h \<rparr> \<rparr>)"
    by (rule timerFires_close_lands [OF take ob1]) (simp_all add: ov1_def live)
  have r2: "r2 = task (timerFires h) r1" by (simp add: r2_def h_def)
  have st1: "map_option (\<lambda>od. state (visibilityState od)) (objects r1 a) = Some BECOMING_FALSE"
    by (simp add: ob1 ov1_def)
  have st2: "map_option (\<lambda>od. state (visibilityState od)) (objects r2 a) = Some FALSE"
    by (simp add: r2 task_store fire closeCallback_def runHook_def detachRef_def
          updateOverlayVisibilityState_def Let_def ov1_def split: option.splits prod.splits)
  have canc: "openOverlays r2 = openOverlays r \<and> topmostOverlay r2 = topmostOverlay r
           \<and> scrollLockCount r2 = scrollLockCount r
           \<and> attachments r2 = attachments r1
           \<and> trace r2 = trace r1 @ [HookRun AfterClose i]" if cancelled
    using that o1
    by (simp add: r2 task_store task_count fire closeCallback_def runHook_def cancelled_def
          ov1_def split: option.splits)
  have fin: "openOverlays r2 = filter (\<lambda>x. x \<noteq> i) (openOverlays r)
           \<and> topmostOverlay r2 = lastOrUndefined (filter (\<lambda>x. x \<noteq> i) (openOverlays r))
           \<and> scrollLockCount r2
               = (if wasScrollLocked ov \<and> i \<in> set (openOverlays r)
                  then max 0 (scrollLockCount r - 1) else scrollLockCount r)
           \<and> attachments r2 ref = \<lparr> elementB = None, listeners = None \<rparr>
           \<and> trace r2 = trace r1
                 @ (case onAfterClose (props ov) of None \<Rightarrow> [] | Some f \<Rightarrow> [HookRun AfterClose i])
                 @ (case listeners (attachments r1 ref) of None \<Rightarrow> [] | Some ls \<Rightarrow> runCleanups ls)"
    if "\<not> cancelled"
    using that o1
    by (simp add: r2 task_store task_count fire closeCallback_def runHook_def cancelled_def
          ov1_def detachRef_def detach_def updateOverlayVisibilityState_def Let_def ref_def
          split: option.splits)
  from o1 st1 st2 canc fin show ?thesis by blast
qed


lemma runHook_neverCancels:
  "neverCancels hk \<Longrightarrow> fst (runHook k i hk r) = False"
  by (simp add: neverCancels_def runHook_def split: option.splits)

lemma openOverlay_from_closed:
  assumes "map_of (overlays r) i = Some a" and "objects r a = Some ov"
    and "state (visibilityState ov) \<noteq> TRUE" and "\<not> disposed (visibilityState ov)"
    and "neverCancels (onBeforeOpen (props ov))"
  shows "openOverlays (task (openOverlay i) r) = filter (\<lambda>x. x \<noteq> i) (openOverlays r) @ [i]"
    and "topmostOverlay (task (openOverlay i) r) = Some i"
    and "overlays (task (openOverlay i) r) = overlays r"
    and "objects (task (openOverlay i) r)
           = (objects r)(a := Some (ov\<lparr> visibilityState := (visibilityState ov)
                \<lparr> state := TRUE, onChange := Some (OpenCallback i a) \<rparr>,
                  wasScrollLocked := (case lockScroll (props ov) of None \<Rightarrow> True | Some l \<Rightarrow> l) \<rparr>))"
    and "timers (task (openOverlay i) r) = snd (clearTimeouts (visibilityState ov) (timers r))"
  using assms
  by (auto simp: task_store openOverlay_def runHook_def neverCancels_def withVisibility_def
        setB_def clearTimeouts_def setState_def effect_def applyAnimation_store
        openCallback_def updateOverlayVisibilityState_def Let_def
        split: option.splits)

lemma openOverlay_already_open:
  assumes "map_of (overlays r) i = Some a" and "objects r a = Some ov"
    and "state (visibilityState ov) = TRUE"
  shows "openOverlays (task (openOverlay i) r) = openOverlays r"
    and "topmostOverlay (task (openOverlay i) r) = topmostOverlay r"
    and "overlays (task (openOverlay i) r) = overlays r"
    and "objects (task (openOverlay i) r) = objects r"
    and "timers (task (openOverlay i) r) = timers r"
    and "scrollLockCount (task (openOverlay i) r) = scrollLockCount r"
  using assms
  by (auto simp: task_store task_count openOverlay_def runHook_def withVisibility_def
        setB_def Let_def split: option.splits)


lemma closeOverlay_task:
  assumes "map_of (overlays r) i = Some a" and "objects r a = Some ov"
    and "state (visibilityState ov) = TRUE" and "\<not> disposed (visibilityState ov)"
    and "neverCancels (onBeforeClose (props ov))"
  shows "openOverlays (task (closeOverlay i) r) = openOverlays r"
    and "topmostOverlay (task (closeOverlay i) r) = topmostOverlay r"
    and "overlays (task (closeOverlay i) r) = overlays r"
    and "objects (task (closeOverlay i) r)
           = (objects r)(a := Some (ov\<lparr> visibilityState := (visibilityState ov)
                \<lparr> state := BECOMING_FALSE, timeout := Some (nextHandle (timers r)),
                  onChange := Some (CloseCallback i a) \<rparr> \<rparr>))"
    and "pendingTimers (timers (task (closeOverlay i) r))
           = pendingTimers (snd (clearTimeouts (visibilityState ov) (timers r)))
             @ [(nextHandle (timers r), timerDelay (delay (visibilityState ov)), a)]"
proof -
  have b: "\<forall>f. onBeforeClose (props ov) = Some f \<longrightarrow> \<not> f (openOverlays r) (topmostOverlay r)"
    using assms(5) by (auto simp: neverCancels_def)
  note c = closeOverlay_from_open [OF assms(1-4) b]
  show "openOverlays (task (closeOverlay i) r) = openOverlays r"
    and "topmostOverlay (task (closeOverlay i) r) = topmostOverlay r"
    and "overlays (task (closeOverlay i) r) = overlays r"
    and "objects (task (closeOverlay i) r)
           = (objects r)(a := Some (ov\<lparr> visibilityState := (visibilityState ov)
                \<lparr> state := BECOMING_FALSE, timeout := Some (nextHandle (timers r)),
                  onChange := Some (CloseCallback i a) \<rparr> \<rparr>))"
    and "pendingTimers (timers (task (closeOverlay i) r))
           = pendingTimers (snd (clearTimeouts (visibilityState ov) (timers r)))
             @ [(nextHandle (timers r), timerDelay (delay (visibilityState ov)), a)]"
    by (simp_all add: task_store c)
qed

lemma elapse_single_due:
  assumes "pendingTimers (timers s) = [(h, ms, a)]" and "ms \<le> d"
  shows "elapse d s = task (timerFires h) (s\<lparr> timers := advance d (timers s) \<rparr>)"
  using assms by (simp add: elapse_def dueHandles_def)

lemma exit_lands:
  assumes "pendingTimers (timers s) = [(h, ms, a)]" and "ms \<le> d"
    and "objects s a = Some ov"
    and "state (visibilityState ov) = BECOMING_FALSE"
    and "onChange (visibilityState ov) = Some (CloseCallback i a)"
    and "\<not> disposed (visibilityState ov)"
    and "neverCancels (onAfterClose (props ov))"
  shows "openOverlays (elapse d s) = filter (\<lambda>x. x \<noteq> i) (openOverlays s)"
    and "topmostOverlay (elapse d s) = lastOrUndefined (filter (\<lambda>x. x \<noteq> i) (openOverlays s))"
    and "overlays (elapse d s) = overlays s"
    and "objects (elapse d s)
           = (objects s)(a := Some (ov\<lparr> visibilityState := (visibilityState ov)\<lparr> state := FALSE \<rparr> \<rparr>))"
    and "pendingTimers (timers (elapse d s)) = []"
proof -
  define s' where "s' = s\<lparr> timers := advance d (timers s) \<rparr>"
  have take: "takeTimer h (timers s')
                = Some (a, (timers s)\<lparr> pendingTimers := [] \<rparr>)"
    using assms(1) by (simp add: s'_def takeTimer_def advance_def clearTimeout_def)
  have ob: "objects s' a = Some ov" using assms(3) by (simp add: s'_def)
  have e: "elapse d s = task (timerFires h) s'"
    unfolding s'_def by (rule elapse_single_due [OF assms(1,2)])
  note f = timerFires_close_lands [OF take ob assms(4,5,6), unfolded s'_def]
  note e = e [unfolded s'_def]
  have nc: "fst (runHook AfterClose i (onAfterClose (props ov)) x) = False" for x
    using assms(7) by (rule runHook_neverCancels)
  show "openOverlays (elapse d s) = filter (\<lambda>x. x \<noteq> i) (openOverlays s)"
    and "topmostOverlay (elapse d s) = lastOrUndefined (filter (\<lambda>x. x \<noteq> i) (openOverlays s))"
    and "overlays (elapse d s) = overlays s"
    and "objects (elapse d s)
           = (objects s)(a := Some (ov\<lparr> visibilityState := (visibilityState ov)\<lparr> state := FALSE \<rparr> \<rparr>))"
    and "pendingTimers (timers (elapse d s)) = []"
    using nc
    by (simp_all add: e task_store f closeCallback_def case_prod_beta runHook_store
          detachRef_def updateOverlayVisibilityState_def Let_def)
qed


lemma timerDelay_le: "timerDelay ms \<le> ms"
  by (simp add: timerDelay_def)

lemma clearTimeouts_idle:
  "pendingTimers c = [] \<Longrightarrow> pendingTimers (snd (clearTimeouts b c)) = []"
  using clearTimeouts_pending_subset [of b c] by simp

text \<open>
  C5, as the code has it. For two registered overlays \<open>A\<close> and \<open>B\<close> that are
  closed, with nothing else open and no hook that cancels: after
  \<open>openOverlay(A)\<close>, \<open>openOverlay(B)\<close>, \<open>openOverlay(A)\<close> the open order is
  \<open>A\<close>, \<open>B\<close> and \<open>B\<close> is topmost, not \<open>A\<close>, since \<open>set(true)\<close> on a visibility
  that is \<open>TRUE\<close> does nothing. Closing \<open>A\<close> and letting its delay pass leaves
  \<open>B\<close> alone in the open set, and topmost unless its id is the empty string;
  closing \<open>B\<close> likewise leaves no topmost overlay. An overlay is moved to the
  end when it is opened again while its exit is in flight.
\<close>

theorem reopen_of_open_overlay_keeps_order:
  assumes A: "map_of (overlays r) A = Some a" and B: "map_of (overlays r) B = Some b"
    and ab: "a \<noteq> b"
    and oa: "objects r a = Some oa" and ob: "objects r b = Some ob"
    and closed: "state (visibilityState oa) = FALSE" "state (visibilityState ob) = FALSE"
    and live: "\<not> disposed (visibilityState oa)" "\<not> disposed (visibilityState ob)"
    and idle: "openOverlays r = []" "pendingTimers (timers r) = []"
    and hooksA: "neverCancels (onBeforeOpen (props oa))" "neverCancels (onBeforeClose (props oa))"
      "neverCancels (onAfterClose (props oa))"
    and hooksB: "neverCancels (onBeforeOpen (props ob))" "neverCancels (onBeforeClose (props ob))"
      "neverCancels (onAfterClose (props ob))"
  defines "r3 \<equiv> task (openOverlay A) (task (openOverlay B) (task (openOverlay A) r))"
  defines "midExit \<equiv> task (closeOverlay A) r3"
  defines "r4 \<equiv> elapse (delay (visibilityState oa)) midExit"
  defines "r5 \<equiv> elapse (delay (visibilityState ob)) (task (closeOverlay B) r4)"
  shows "isTopmost B r3 \<and> \<not> isTopmost A r3 \<and> openOverlays r3 = [A, B]
       \<and> openOverlays r4 = [B] \<and> (B \<noteq> [] \<longrightarrow> isTopmost B r4)
       \<and> openOverlays r5 = [] \<and> topmostOverlay r5 = None
       \<and> isTopmost A (task (openOverlay A) midExit)
       \<and> openOverlays (task (openOverlay A) midExit) = [B, A]"
proof -
  have AB: "A \<noteq> B" using A B ab by auto
  define oa1 where "oa1 = oa\<lparr> visibilityState := (visibilityState oa)
                \<lparr> state := TRUE, onChange := Some (OpenCallback A a) \<rparr>,
                  wasScrollLocked := (case lockScroll (props oa) of None \<Rightarrow> True | Some l \<Rightarrow> l) \<rparr>"
  define ob1 where "ob1 = ob\<lparr> visibilityState := (visibilityState ob)
                \<lparr> state := TRUE, onChange := Some (OpenCallback B b) \<rparr>,
                  wasScrollLocked := (case lockScroll (props ob) of None \<Rightarrow> True | Some l \<Rightarrow> l) \<rparr>"
  define s1 where "s1 = task (openOverlay A) r"
  define s2 where "s2 = task (openOverlay B) s1"
  have closedA: "state (visibilityState oa) \<noteq> TRUE" using closed(1) by simp
  have closedB: "state (visibilityState ob) \<noteq> TRUE" using closed(2) by simp
  note o1 = openOverlay_from_closed [OF A oa closedA live(1) hooksA(1), folded s1_def]
  have s1: "openOverlays s1 = [A]" "overlays s1 = overlays r"
    "objects s1 = (objects r)(a := Some oa1)" "pendingTimers (timers s1) = []"
    using o1 idle by (simp_all add: oa1_def clearTimeouts_idle)
  have B1: "map_of (overlays s1) B = Some b" using B s1(2) by simp
  have ob1': "objects s1 b = Some ob" using ob ab s1(3) by simp
  note o2 = openOverlay_from_closed [OF B1 ob1' closedB live(2) hooksB(1), folded s2_def]
  have s2: "openOverlays s2 = [A, B]" "topmostOverlay s2 = Some B" "overlays s2 = overlays r"
    "objects s2 = (objects r)(a := Some oa1, b := Some ob1)" "pendingTimers (timers s2) = []"
    using o2 s1 AB by (simp_all add: ob1_def clearTimeouts_idle)
  have A2: "map_of (overlays s2) A = Some a" using A s2(3) by simp
  have oa2: "objects s2 a = Some oa1" using ab s2(4) by simp
  have openA: "state (visibilityState oa1) = TRUE" by (simp add: oa1_def)
  have r3s: "r3 = task (openOverlay A) s2" by (simp add: r3_def s1_def s2_def)
  note o3 = openOverlay_already_open [OF A2 oa2 openA, folded r3s]
  have r3: "openOverlays r3 = [A, B]" "topmostOverlay r3 = Some B" "overlays r3 = overlays r"
    "objects r3 = (objects r)(a := Some oa1, b := Some ob1)" "pendingTimers (timers r3) = []"
    using o3 s2 by simp_all
  have A3: "map_of (overlays r3) A = Some a" using A r3(3) by simp
  have oa3: "objects r3 a = Some oa1" using ab r3(4) by simp
  have liveA1: "\<not> disposed (visibilityState oa1)" using live(1) by (simp add: oa1_def)
  have hA1: "neverCancels (onBeforeClose (props oa1))" "neverCancels (onAfterClose (props oa1))"
    "neverCancels (onBeforeOpen (props oa1))"
    using hooksA by (simp_all add: oa1_def)
  define oa2 where "oa2 = oa1\<lparr> visibilityState := (visibilityState oa1)
                \<lparr> state := BECOMING_FALSE, timeout := Some (nextHandle (timers r3)),
                  onChange := Some (CloseCallback A a) \<rparr> \<rparr>"
  note c1 = closeOverlay_task [OF A3 oa3 openA liveA1 hA1(1), folded midExit_def]
  have m: "openOverlays midExit = [A, B]" "overlays midExit = overlays r"
    "objects midExit = (objects r)(a := Some oa2, b := Some ob1)"
    "pendingTimers (timers midExit) = [(nextHandle (timers r3), timerDelay (delay (visibilityState oa)), a)]"
    using c1 r3 ab by (auto simp: oa2_def oa1_def clearTimeouts_idle)
  have oam: "objects midExit a = Some oa2" using ab m(3) by simp
  have stm: "state (visibilityState oa2) = BECOMING_FALSE"
    "onChange (visibilityState oa2) = Some (CloseCallback A a)"
    "\<not> disposed (visibilityState oa2)" "neverCancels (onAfterClose (props oa2))"
    "state (visibilityState oa2) \<noteq> TRUE" "neverCancels (onBeforeOpen (props oa2))"
    using liveA1 hA1 by (simp_all add: oa2_def)
  note l1 = exit_lands [OF m(4) timerDelay_le oam stm(1,2,3,4), folded r4_def]
  have r4: "openOverlays r4 = [B]" "topmostOverlay r4 = lastOrUndefined [B]"
    "overlays r4 = overlays r" "objects r4 b = Some ob1" "pendingTimers (timers r4) = []"
    using l1 m AB ab by simp_all
  have B4: "map_of (overlays r4) B = Some b" using B r4(3) by simp
  have stB: "state (visibilityState ob1) = TRUE" "\<not> disposed (visibilityState ob1)"
    "neverCancels (onBeforeClose (props ob1))" "neverCancels (onAfterClose (props ob1))"
    using live(2) hooksB by (simp_all add: ob1_def)
  define cB where "cB = task (closeOverlay B) r4"
  define ob2 where "ob2 = ob1\<lparr> visibilityState := (visibilityState ob1)
                \<lparr> state := BECOMING_FALSE, timeout := Some (nextHandle (timers r4)),
                  onChange := Some (CloseCallback B b) \<rparr> \<rparr>"
  note c2 = closeOverlay_task [OF B4 r4(4) stB(1,2,3), folded cB_def]
  have cb: "openOverlays cB = [B]" "objects cB b = Some ob2"
    "pendingTimers (timers cB) = [(nextHandle (timers r4), timerDelay (delay (visibilityState ob)), b)]"
    using c2 r4 by (simp_all add: ob2_def ob1_def clearTimeouts_idle)
  have stB2: "state (visibilityState ob2) = BECOMING_FALSE"
    "onChange (visibilityState ob2) = Some (CloseCallback B b)"
    "\<not> disposed (visibilityState ob2)" "neverCancels (onAfterClose (props ob2))"
    using stB by (simp_all add: ob2_def)
  have r5s: "r5 = elapse (delay (visibilityState ob)) cB" by (simp add: r5_def cB_def)
  note l2 = exit_lands [OF cb(3) timerDelay_le cb(2) stB2, folded r5s]
  have r5: "openOverlays r5 = []" "topmostOverlay r5 = None"
    using l2 cb by (simp_all add: lastOrUndefined_def)
  have Am: "map_of (overlays midExit) A = Some a" using A m(2) by simp
  note o4 = openOverlay_from_closed [OF Am oam stm(5,3,6)]
  have again: "openOverlays (task (openOverlay A) midExit) = [B, A]"
    "topmostOverlay (task (openOverlay A) midExit) = Some A"
    using o4 m AB by simp_all
  show ?thesis
    using r3 r4 r5 again AB by (simp add: isTopmost_def lastOrUndefined_def)
qed

lemmas store_defs =
  task_def registerOverlay_def unregisterOverlay_def openOverlay_def closeOverlay_def
  runHook_def withVisibility_def openCallback_def closeCallback_def
  updateOverlayVisibilityState_def lastOrUndefined_def applyAnimation_def
  animationHandler_def detachRef_def runScrollLockEffect_def scrollLockEffect_def
  createBoolLazyFalse_def setB_def setState_def effect_def clearTimeouts_def
  clearTimeout_def setTimeout_def timerDelay_def cleanup_def timerCallback_def timerFires_def
  takeTimer_def elapse_def dueHandles_def advance_def newStore_def newClock_def
  attachmentOf_def onAttach_def detach_def createAttach_def cleanupEvents_def
  runCleanups_def

lemmas input_defs =
  noRefs_def plainOverlay_def hookedOverlay_def vetoOverlay_def quietHook_def vetoHook_def
  restingState_def

lemma twoClosed_value:
  "overlays twoClosed = [(''A'', 0), (''B'', 1)]
   \<and> objects twoClosed 0 = Some \<lparr> props = hookedOverlay ''A'' 0,
                                   visibilityState = restingState False, wasScrollLocked = False \<rparr>
   \<and> objects twoClosed 1 = Some \<lparr> props = hookedOverlay ''B'' 1,
                                   visibilityState = restingState False, wasScrollLocked = False \<rparr>
   \<and> openOverlays twoClosed = [] \<and> pendingTimers (timers twoClosed) = []"
  by (simp add: twoClosed_def store_defs input_defs Let_def)

text \<open>After \<open>A\<close>, \<open>B\<close>, \<open>A\<close> are opened, \<open>B\<close> is topmost and \<open>A\<close> is not.\<close>

theorem reopen_of_open_overlay_not_topmost:
  "\<not> isTopmost ''A'' abaOpened \<and> isTopmost ''B'' abaOpened
   \<and> openOverlays abaOpened = [''A'', ''B'']"
  by (simp add: abaOpened_def twoClosed_def isTopmost_def store_defs input_defs Let_def)

text \<open>The exit of \<open>m1\<close> has landed and \<open>onAfterClose\<close> has run and cancelled,
  having found \<open>m1\<close> still among the open overlays: \<open>m1\<close> is still open and
  topmost, and the lock count is still 1.\<close>

theorem after_close_veto_keeps_overlay_open:
  "state (visibilityState (the (objects vetoed 0))) = FALSE
   \<and> trace vetoed = [HookRun BeforeClose ''m1'', HookRun AfterClose ''m1'']
   \<and> isOpen ''m1'' vetoed \<and> isTopmost ''m1'' vetoed \<and> scrollLockCount vetoed = 1"
  by (simp add: vetoed_def shown_def isOpen_def isTopmost_def store_defs input_defs Let_def)

lemma busy_value:
  "overlays busy = [(''m0'', 0), (''m1'', 1), (''m2'', 2)]
   \<and> objects busy 0 = Some \<lparr> props = (hookedOverlay ''m0'' 0)\<lparr> initiallyVisible := Some True \<rparr>,
                              visibilityState = restingState True, wasScrollLocked = True \<rparr>
   \<and> objects busy 1 = Some \<lparr> props = vetoOverlay,
                              visibilityState = restingState True, wasScrollLocked = True \<rparr>
   \<and> openOverlays busy = [''m0'', ''m1'', ''m2''] \<and> topmostOverlay busy = Some ''m2''
   \<and> scrollLockCount busy = 3
   \<and> pendingTimers (timers busy) = [(1, 200, 2)] \<and> nextHandle (timers busy) = 2"
  by (simp add: busy_def store_defs input_defs Let_def)


lemma quietHook_neverCancels: "neverCancels (Some quietHook)"
  by (simp add: neverCancels_def quietHook_def)

theorem reopen_of_open_overlay_keeps_order_witness:
  "map_of (overlays twoClosed) ''A'' = Some 0 \<and> map_of (overlays twoClosed) ''B'' = Some 1
   \<and> objects twoClosed 0 = Some \<lparr> props = hookedOverlay ''A'' 0,
                                   visibilityState = restingState False, wasScrollLocked = False \<rparr>
   \<and> objects twoClosed 1 = Some \<lparr> props = hookedOverlay ''B'' 1,
                                   visibilityState = restingState False, wasScrollLocked = False \<rparr>
   \<and> openOverlays twoClosed = [] \<and> pendingTimers (timers twoClosed) = []
   \<and> neverCancels (Some quietHook)
   \<and> isTopmost ''B'' abaOpened \<and> \<not> isTopmost ''A'' abaOpened
   \<and> openOverlays (elapse 200 (task (closeOverlay ''A'') abaOpened)) = [''B'']
   \<and> isTopmost ''B'' (elapse 200 (task (closeOverlay ''A'') abaOpened))
   \<and> topmostOverlay (elapse 200 (task (closeOverlay ''B'')
        (elapse 200 (task (closeOverlay ''A'') abaOpened)))) = None
   \<and> isTopmost ''A'' (task (openOverlay ''A'') (task (closeOverlay ''A'') abaOpened))"
proof -
  define oa where "oa = \<lparr> props = hookedOverlay ''A'' 0,
                          visibilityState = restingState False, wasScrollLocked = False \<rparr>"
  define ob where "ob = \<lparr> props = hookedOverlay ''B'' 1,
                          visibilityState = restingState False, wasScrollLocked = False \<rparr>"
  have A: "map_of (overlays twoClosed) ''A'' = Some 0"
    and B: "map_of (overlays twoClosed) ''B'' = Some 1"
    and oa: "objects twoClosed 0 = Some oa" and ob: "objects twoClosed 1 = Some ob"
    and idle: "openOverlays twoClosed = []" "pendingTimers (timers twoClosed) = []"
    using twoClosed_value by (simp_all add: oa_def ob_def)
  have ab: "(0::nat) \<noteq> 1" by simp
  have st: "state (visibilityState oa) = FALSE" "state (visibilityState ob) = FALSE"
    "\<not> disposed (visibilityState oa)" "\<not> disposed (visibilityState ob)"
    by (simp_all add: oa_def ob_def restingState_def)
  have hk: "neverCancels (onBeforeOpen (props oa))" "neverCancels (onBeforeClose (props oa))"
    "neverCancels (onAfterClose (props oa))" "neverCancels (onBeforeOpen (props ob))"
    "neverCancels (onBeforeClose (props ob))" "neverCancels (onAfterClose (props ob))"
    using quietHook_neverCancels by (simp_all add: oa_def ob_def hookedOverlay_def)
  from reopen_of_open_overlay_keeps_order
         [OF A B ab oa ob st(1,2,3,4) idle hk(1,2,3,4,5,6)]
       A B oa ob idle quietHook_neverCancels
  show ?thesis by (simp add: abaOpened_def oa_def ob_def restingState_def)
qed

theorem exit_landing_hook_before_bookkeeping_witness:
  "map_of (overlays busy) ''m1'' = Some 1
   \<and> objects busy 1 = Some \<lparr> props = vetoOverlay,
                              visibilityState = restingState True, wasScrollLocked = True \<rparr>
   \<and> map_of (overlays busy) ''m0'' = Some 0
   \<and> objects busy 0 = Some \<lparr> props = (hookedOverlay ''m0'' 0)\<lparr> initiallyVisible := Some True \<rparr>,
                              visibilityState = restingState True, wasScrollLocked = True \<rparr>
   \<and> pendingTimers (timers busy) = [(1, 200, 2)] \<and> nextHandle (timers busy) = 2
   \<and> openOverlays busy = [''m0'', ''m1'', ''m2''] \<and> scrollLockCount busy = 3
   \<and> openOverlays (task (timerFires 2) (task (closeOverlay ''m1'') busy)) = [''m0'', ''m1'', ''m2'']
   \<and> scrollLockCount (task (timerFires 2) (task (closeOverlay ''m1'') busy)) = 3
   \<and> openOverlays (task (timerFires 2) (task (closeOverlay ''m0'') busy)) = [''m1'', ''m2'']
   \<and> scrollLockCount (task (timerFires 2) (task (closeOverlay ''m0'') busy)) = 2"
proof -
  define o1 where "o1 = \<lparr> props = vetoOverlay,
                          visibilityState = restingState True, wasScrollLocked = True \<rparr>"
  define o0 where "o0 = \<lparr> props = (hookedOverlay ''m0'' 0)\<lparr> initiallyVisible := Some True \<rparr>,
                          visibilityState = restingState True, wasScrollLocked = True \<rparr>"
  have m1: "map_of (overlays busy) ''m1'' = Some 1" and m0: "map_of (overlays busy) ''m0'' = Some 0"
    and ob1: "objects busy 1 = Some o1" and ob0: "objects busy 0 = Some o0"
    and tm: "pendingTimers (timers busy) = [(1, 200, 2)]" "nextHandle (timers busy) = 2"
    and op: "openOverlays busy = [''m0'', ''m1'', ''m2'']" "scrollLockCount busy = 3"
      "topmostOverlay busy = Some ''m2''"
    using busy_value by (simp_all add: o1_def o0_def)
  have st: "state (visibilityState o1) = TRUE" "\<not> disposed (visibilityState o1)"
    "state (visibilityState o0) = TRUE" "\<not> disposed (visibilityState o0)"
    by (simp_all add: o1_def o0_def restingState_def)
  have b1: "\<forall>f. onBeforeClose (props o1) = Some f
                \<longrightarrow> \<not> f (openOverlays busy) (topmostOverlay busy)"
    by (simp add: o1_def vetoOverlay_def quietHook_def)
  have b0: "\<forall>f. onBeforeClose (props o0) = Some f
                \<longrightarrow> \<not> f (openOverlays busy) (topmostOverlay busy)"
    by (simp add: o0_def hookedOverlay_def quietHook_def)
  have fr: "\<forall>t \<in> set (pendingTimers (timers busy)). fst t < nextHandle (timers busy)"
    by (simp add: tm)
  have c1: "(case onAfterClose (props o1) of None \<Rightarrow> False
              | Some f \<Rightarrow> f (openOverlays busy) (topmostOverlay busy)) = True"
    by (simp add: o1_def vetoOverlay_def vetoHook_def op)
  have c0: "(case onAfterClose (props o0) of None \<Rightarrow> False
              | Some f \<Rightarrow> f (openOverlays busy) (topmostOverlay busy)) = False"
    by (simp add: o0_def hookedOverlay_def quietHook_def)
  have w0: "wasScrollLocked o0" by (simp add: o0_def)
  from exit_landing_hook_before_bookkeeping [OF m1 ob1 st(1,2) b1 fr]
       exit_landing_hook_before_bookkeeping [OF m0 ob0 st(3,4) b0 fr]
       m1 m0 ob1 ob0 tm op
  show ?thesis
    unfolding c1 c0 by (simp add: tm op w0 o1_def o0_def)
qed

lemma mismatched_overlays: "map_of (overlays mismatched) ''B'' = None"
  using mismatched_value by simp

theorem unknown_id_is_noop_witness:
  "map_of (overlays mismatched) ''B'' = None
   \<and> task (openOverlay ''B'') mismatched = mismatched
   \<and> task (closeOverlay ''B'') mismatched = mismatched
   \<and> task (unregisterOverlay ''B'') mismatched = mismatched"
  using unknown_id_is_noop [OF mismatched_overlays] mismatched_overlays by simp

theorem scrollLockCount_never_negative_witness:
  "reachable mismatched
   \<and> scrollLockCount (unregisterOverlay ''A'' mismatched) < 0
   \<and> 0 \<le> scrollLockCount mismatched
   \<and> scrollLockCount (task (unregisterOverlay ''A'') mismatched) = 0"
  using scrollLockCount_never_negative [OF mismatched_reach] mismatched_reach
    mismatched_unregister
  by simp

end
